theory Spec2Isabelle
  imports Complex_Main
begin

chapter \<open>The model of \<open>momepy/elements.py\<close>\<close>

section \<open>Geometry values, table rows and the external geometry kernel\<close>

text \<open>
  Coordinates are pairs of reals (the source computes with binary floating point; the
  model idealises them as reals). A geometry value carries its kind and its coordinates
  the way shapely objects do: \<open>g.type\<close> is the constructor, \<open>g.coords\<close>, \<open>g[i]\<close>
  and \<open>g.geoms\<close> read the constructor's arguments. The parts of a multi-part geometry
  are, as in shapely, of the matching single kind; only a geometry collection is mixed.
\<close>

type_synonym coord = "real \<times> real"

datatype geometry =
    Point coord
  | LineString "coord list"
  | LinearRing "coord list"
  | Polygon "coord list" "coord list list"
  | MultiPoint "coord list"
  | MultiLineString "coord list list"
  | MultiPolygon "(coord list \<times> coord list list) list"
  | GeometryCollection "geometry list"

fun geom_type :: "geometry \<Rightarrow> string" where
  "geom_type (Point c) = ''Point''"
| "geom_type (LineString cs) = ''LineString''"
| "geom_type (LinearRing cs) = ''LinearRing''"
| "geom_type (Polygon sh hs) = ''Polygon''"
| "geom_type (MultiPoint cs) = ''MultiPoint''"
| "geom_type (MultiLineString ls) = ''MultiLineString''"
| "geom_type (MultiPolygon ps) = ''MultiPolygon''"
| "geom_type (GeometryCollection gs) = ''GeometryCollection''"

text \<open>The \<open>p\<close>-th member of a MultiPolygon is a Polygon.\<close>

definition polygon_part :: "coord list \<times> coord list list \<Rightarrow> geometry" where
  "polygon_part p = Polygon (fst p) (snd p)"

text \<open>The Python exceptions the modelled code can raise.\<close>

datatype error =
    Exception string
  | IndexError
  | KeyError
  | ValueError
  | AttributeError
  | ZeroDivisionError
  | NotImplementedError

text \<open>
  A row of a buildings or tessellation table: the column named by the \<open>unique_id\<close>
  argument and the geometry column; further columns are the record's extension.
\<close>

record feature =
  unique_id :: int
  geom :: geometry

text \<open>A bounding box \<open>(minx, miny, maxx, maxy)\<close>.\<close>

type_synonym bbox = "real \<times> real \<times> real \<times> real"

text \<open>The result of \<open>scipy.spatial.Voronoi\<close>, as far as the code reads it.\<close>

record voronoi =
  v_point_region :: "int list"
  v_regions :: "int list list"
  v_vertices :: "coord list"

text \<open>
  The operations of the geometry libraries (shapely/GEOS, OGR, scipy, libpysal) are not
  part of the repository. They are parameters of the model, collected in one record;
  every theorem below holds for every kernel unless it states a contract of the kernel
  as a hypothesis. \<open>k_segmentize\<close> is the OGR round trip of \<open>_densify\<close>
  (\<open>Segmentize\<close>, \<open>CloseRings\<close>, WKT export and import), \<open>None\<close> when the import
  fails; \<open>k_buffer g d c j\<close> is \<open>g.buffer(d, cap_style=c, join_style=j)\<close>;
  \<open>k_queen gs\<close> is the \<open>neighbors\<close> dictionary of libpysal's Queen weights over the
  geometries \<open>gs\<close>, the list of neighbours of every position.
\<close>

record kernel =
  k_boundary :: "geometry \<Rightarrow> geometry option"
  k_bounds :: "geometry \<Rightarrow> bbox"
  k_is_empty :: "geometry \<Rightarrow> bool"
  k_translate :: "geometry \<Rightarrow> real \<Rightarrow> real \<Rightarrow> geometry"
  k_buffer :: "geometry \<Rightarrow> real \<Rightarrow> nat \<Rightarrow> nat \<Rightarrow> geometry"
  k_segmentize :: "geometry \<Rightarrow> real \<Rightarrow> geometry option"
  k_convex_hull :: "geometry \<Rightarrow> geometry"
  k_voronoi :: "coord list \<Rightarrow> voronoi"
  k_length :: "geometry \<Rightarrow> real"
  k_area :: "geometry \<Rightarrow> real"
  k_unary_union :: "geometry list \<Rightarrow> geometry"
  k_intersection :: "geometry \<Rightarrow> geometry \<Rightarrow> geometry"
  k_intersects :: "geometry \<Rightarrow> geometry \<Rightarrow> bool"
  k_distance :: "coord \<Rightarrow> coord \<Rightarrow> real"
  k_polygonize :: "geometry \<Rightarrow> geometry list"
  k_difference :: "geometry \<Rightarrow> geometry \<Rightarrow> geometry"
  k_within :: "geometry \<Rightarrow> geometry \<Rightarrow> bool"
  k_representative_point :: "geometry \<Rightarrow> geometry"
  k_queen :: "geometry list \<Rightarrow> nat list list"

section \<open>Python and pandas helpers\<close>

text \<open>Sequencing of computations that may raise.\<close>

definition ebind :: "error + 'a \<Rightarrow> ('a \<Rightarrow> error + 'b) \<Rightarrow> error + 'b" where
  "ebind m f = (case m of Inl e \<Rightarrow> Inl e | Inr x \<Rightarrow> f x)"

fun map_err :: "('a \<Rightarrow> error + 'b) \<Rightarrow> 'a list \<Rightarrow> error + 'b list" where
  "map_err f [] = Inr []"
| "map_err f (x # xs) =
     (case f x of
        Inl e \<Rightarrow> Inl e
      | Inr y \<Rightarrow> (case map_err f xs of Inl e \<Rightarrow> Inl e | Inr ys \<Rightarrow> Inr (y # ys)))"

text \<open>\<open>xs[i]\<close>: a negative index counts from the end, an index out of range raises.\<close>

definition py_index :: "'a list \<Rightarrow> int \<Rightarrow> error + 'a" where
  "py_index xs i =
     (if 0 \<le> i \<and> i < int (length xs) then Inr (xs ! nat i)
      else if i < 0 \<and> - int (length xs) \<le> i then Inr (xs ! nat (int (length xs) + i))
      else Inl IndexError)"

text \<open>
  \<open>max(items, key=...)\<close> and \<open>min(items, key=...)\<close>: CPython keeps the first item and
  replaces it only by a strictly greater (smaller) one, so the first extremal item is
  returned; an empty sequence raises \<open>ValueError\<close>.
\<close>

definition py_max :: "('a \<Rightarrow> real) \<Rightarrow> 'a list \<Rightarrow> error + 'a" where
  "py_max key xs =
     (case xs of
        [] \<Rightarrow> Inl ValueError
      | x # rest \<Rightarrow> Inr (foldl (\<lambda>best y. if key best < key y then y else best) x rest))"

definition py_min :: "('a \<Rightarrow> real) \<Rightarrow> 'a list \<Rightarrow> error + 'a" where
  "py_min key xs =
     (case xs of
        [] \<Rightarrow> Inl ValueError
      | x # rest \<Rightarrow> Inr (foldl (\<lambda>best y. if key y < key best then y else best) x rest))"

text \<open>\<open>drop_duplicates(subset=[column])\<close>: the first row of every key is kept.\<close>

fun drop_duplicates :: "('a \<Rightarrow> 'k) \<Rightarrow> 'a list \<Rightarrow> 'a list" where
  "drop_duplicates key [] = []"
| "drop_duplicates key (x # xs) = x # drop_duplicates key (filter (\<lambda>y. key y \<noteq> key x) xs)"

text \<open>
  \<open>explode()\<close>: a multi-part geometry or a collection becomes one row per part, each
  with the row's other columns; any other geometry stays one row.
\<close>

fun parts :: "geometry \<Rightarrow> geometry list" where
  "parts (MultiPoint cs) = map Point cs"
| "parts (MultiLineString ls) = map LineString ls"
| "parts (MultiPolygon ps) = map polygon_part ps"
| "parts (GeometryCollection gs) = gs"
| "parts g = [g]"

definition explode :: "'a feature_scheme list \<Rightarrow> 'a feature_scheme list" where
  "explode rows = concat (map (\<lambda>r. map (\<lambda>p. r\<lparr>geom := p\<rparr>) (parts (geom r))) rows)"

text \<open>
  \<open>dissolve(by=unique_id, as_index=False)\<close> of a table with the columns
  \<open>[unique_id, 'geometry']\<close>: one row per distinct key, in ascending key order, whose
  geometry is the union of the group's geometries.
\<close>

definition dissolve :: "kernel \<Rightarrow> feature list \<Rightarrow> feature list" where
  "dissolve k rows =
     map (\<lambda>u. \<lparr>unique_id = u,
                geom = k_unary_union k (map geom (filter (\<lambda>r. unique_id r = u) rows))\<rparr>)
         (sort (remdups (map unique_id rows)))"

text \<open>\<open>table.loc[idx, 'geometry'] = g\<close> on a table whose index is \<open>0 .. n-1\<close>.\<close>

definition set_geometry :: "'a feature_scheme list \<Rightarrow> nat \<Rightarrow> geometry \<Rightarrow> 'a feature_scheme list" where
  "set_geometry table idx g = table[idx := (table ! idx)\<lparr>geom := g\<rparr>]"

section \<open>The spatial index\<close>

text \<open>
  \<open>table.sindex\<close> is an R-tree over the bounding boxes of the table's non-empty
  geometries, keyed by row position; \<open>sindex.intersection(box)\<close> yields the positions
  whose box intersects the query box. The order in which an R-tree reports them is not
  specified; the model reports them in ascending order.
\<close>

type_synonym sindex = "(nat \<times> bbox) list"

definition boxes_intersect :: "bbox \<Rightarrow> bbox \<Rightarrow> bool" where
  "boxes_intersect a b =
     (case a of (aminx, aminy, amaxx, amaxy) \<Rightarrow>
      case b of (bminx, bminy, bmaxx, bmaxy) \<Rightarrow>
        aminx \<le> bmaxx \<and> bminx \<le> amaxx \<and> aminy \<le> bmaxy \<and> bminy \<le> amaxy)"

definition sindex_build :: "kernel \<Rightarrow> geometry list \<Rightarrow> sindex" where
  "sindex_build k gs =
     map (\<lambda>i. (i, k_bounds k (gs ! i))) (filter (\<lambda>i. \<not> k_is_empty k (gs ! i)) [0..<length gs])"

definition sindex_intersection :: "sindex \<Rightarrow> bbox \<Rightarrow> nat list" where
  "sindex_intersection sx q = map fst (filter (\<lambda>e. boxes_intersect (snd e) q) sx)"

section \<open>Seed generation\<close>

subsection \<open>\<open>_get_centre\<close> and \<open>_densify\<close>\<close>

text \<open>
  The centre of the table's total bounds. For an empty table pandas yields NaN; here the
  value is HOL's unspecified maximum of the empty set, and no theorem depends on it.
\<close>

definition get_centre :: "kernel \<Rightarrow> 'a feature_scheme list \<Rightarrow> real \<times> real" where
  "get_centre k gdf =
     (let bounds = map (\<lambda>r. k_bounds k (geom r)) gdf;
          centre_x = (Max (set (map (\<lambda>(minx, miny, maxx, maxy). maxx) bounds))
                      + Min (set (map (\<lambda>(minx, miny, maxx, maxy). minx) bounds))) / 2;
          centre_y = (Max (set (map (\<lambda>(minx, miny, maxx, maxy). maxy) bounds))
                      + Min (set (map (\<lambda>(minx, miny, maxx, maxy). miny) bounds))) / 2
      in (centre_x, centre_y))"

text \<open>\<open>_densify\<close>: the densified geometry, or the input when the round trip fails.\<close>

definition densify :: "kernel \<Rightarrow> geometry \<Rightarrow> real \<Rightarrow> geometry" where
  "densify k g segment = (case k_segmentize k g segment of Some new \<Rightarrow> new | None \<Rightarrow> g)"

subsection \<open>\<open>_point_array\<close>\<close>

text \<open>
  One iteration of the loop of \<open>_point_array\<close>: the row's boundary is read; a missing
  boundary is skipped, the vertices of a MultiLineString or a LineString are appended to
  \<open>points\<close>, each with the row's id appended to \<open>ids\<close>; any other boundary raises
  \<open>Exception('Boundary type is ...')\<close>.
\<close>

definition point_array_row ::
  "kernel \<Rightarrow> 'a feature_scheme \<Rightarrow> coord list \<times> int list \<Rightarrow> error + (coord list \<times> int list)" where
  "point_array_row k row acc =
     (case acc of (points, ids) \<Rightarrow>
        (case k_boundary k (geom row) of
           None \<Rightarrow> Inr (points, ids)
         | Some poly_ext \<Rightarrow>
             (case poly_ext of
                MultiLineString ls \<Rightarrow>
                  Inr (points @ concat ls, ids @ replicate (length (concat ls)) (unique_id row))
              | LineString cs \<Rightarrow>
                  Inr (points @ cs, ids @ replicate (length cs) (unique_id row))
              | _ \<Rightarrow> Inl (Exception (''Boundary type is '' @ geom_type poly_ext)))))"

text \<open>
  The loop over the rows. The exception is not caught anywhere in \<open>_point_array\<close> or
  in its caller: it ends the loop and the call.
\<close>

fun point_array_loop ::
  "kernel \<Rightarrow> 'a feature_scheme list \<Rightarrow> coord list \<times> int list \<Rightarrow> error + (coord list \<times> int list)" where
  "point_array_loop k [] acc = Inr acc"
| "point_array_loop k (row # rows) acc =
     (case point_array_row k row acc of
        Inl e \<Rightarrow> Inl e
      | Inr acc' \<Rightarrow> point_array_loop k rows acc')"

definition point_array ::
  "kernel \<Rightarrow> 'a feature_scheme list \<Rightarrow> error + (coord list \<times> int list)" where
  "point_array k objects = point_array_loop k objects ([], [])"

subsection \<open>The erosion step of \<open>tessellation\<close>\<close>

text \<open>
  shapely's enumerations \<open>CAP_STYLE\<close> and \<open>JOIN_STYLE\<close>, which give the integers passed
  to \<open>buffer\<close> their meaning.
\<close>

datatype cap_style = CAP_round | CAP_flat | CAP_square

datatype join_style = JOIN_round | JOIN_mitre | JOIN_bevel

fun cap_style_value :: "cap_style \<Rightarrow> nat" where
  "cap_style_value CAP_round = 1"
| "cap_style_value CAP_flat = 2"
| "cap_style_value CAP_square = 3"

fun join_style_value :: "join_style \<Rightarrow> nat" where
  "join_style_value JOIN_round = 1"
| "join_style_value JOIN_mitre = 2"
| "join_style_value JOIN_bevel = 3"

text \<open>\<open>lambda g: g.buffer(-shrink, cap_style=2, join_style=2)\<close>\<close>

definition erode :: "kernel \<Rightarrow> real \<Rightarrow> geometry \<Rightarrow> geometry" where
  "erode k shrink g = k_buffer k g (- shrink) 2 2"

text \<open>
  The table \<open>objects\<close> of \<open>tessellation\<close> when the seeds are read from it: recentred,
  eroded, exploded to single parts and densified.
\<close>

definition tessellation_objects ::
  "kernel \<Rightarrow> 'a feature_scheme list \<Rightarrow> real \<Rightarrow> real \<Rightarrow> 'a feature_scheme list" where
  "tessellation_objects k gdf shrink segment =
     (let centre = get_centre k gdf;
          objects = map (\<lambda>r. r\<lparr>geom := k_translate k (geom r) (- fst centre) (- snd centre)\<rparr>) gdf;
          objects = map (\<lambda>r. r\<lparr>geom := erode k shrink (geom r)\<rparr>) objects;
          objects = explode objects;
          objects = map (\<lambda>r. r\<lparr>geom := densify k (geom r) segment\<rparr>) objects
      in objects)"

subsection \<open>The seeds of \<open>tessellation\<close>\<close>

text \<open>\<open>g.coords\<close>: defined for points, lines and rings only.\<close>

fun coords :: "geometry \<Rightarrow> error + coord list" where
  "coords (Point c) = Inr [c]"
| "coords (LineString cs) = Inr cs"
| "coords (LinearRing cs) = Inr cs"
| "coords g = Inl NotImplementedError"

text \<open>
  The seeds: the vertices of \<open>objects\<close> with their ids, then the vertices of the
  buffered and densified convex hull of the recentred limit, each with the id \<open>-1\<close>.
  \<open>buffer(300)\<close> uses shapely's defaults, round caps and joins.
\<close>

definition tessellation_seeds ::
  "kernel \<Rightarrow> 'a feature_scheme list \<Rightarrow> geometry \<Rightarrow> real \<Rightarrow> real \<Rightarrow> error + (coord list \<times> int list)" where
  "tessellation_seeds k gdf limit shrink segment =
     ebind (point_array k (tessellation_objects k gdf shrink segment)) (\<lambda>(points, ids).
       let centre = get_centre k gdf;
           series = k_translate k limit (- fst centre) (- snd centre);
           hull_polygon = k_buffer k (k_convex_hull k series) 300 1 1;
           hull_polygon = densify k hull_polygon 20
       in ebind (case k_boundary k hull_polygon of None \<Rightarrow> Inl AttributeError | Some b \<Rightarrow> coords b)
            (\<lambda>hull_array.
               Inr (points @ hull_array, ids @ replicate (length hull_array) (- 1))))"

section \<open>Voronoi regions: \<open>_regions\<close>\<close>

text \<open>
  \<open>Polygon(coordinates)\<close>: shapely refuses fewer than three coordinates and closes an
  open ring.
\<close>

definition polygon :: "coord list \<Rightarrow> coord list list \<Rightarrow> error + geometry" where
  "polygon cs holes =
     (if length cs < 3 then Inl ValueError
      else Inr (Polygon (if hd cs = last cs then cs else cs @ [hd cs]) holes))"

text \<open>
  The polygon of one region: \<open>None\<close> when the region is unbounded (it holds the vertex
  index \<open>-1\<close>), else the polygon over the diagram's vertices.
\<close>

definition region_polygon :: "voronoi \<Rightarrow> int list \<Rightarrow> error + geometry option" where
  "region_polygon vd region =
     (if - 1 \<in> set region then Inr None
      else ebind (map_err (py_index (v_vertices vd)) region) (\<lambda>cs.
           ebind (polygon cs []) (\<lambda>p. Inr (Some p))))"

text \<open>\<open>dropna()\<close> on the columns id and geometry: rows without a polygon are dropped.\<close>

fun dropna :: "(int \<times> geometry option) list \<Rightarrow> feature list" where
  "dropna [] = []"
| "dropna ((u, None) # rows) = dropna rows"
| "dropna ((u, Some p) # rows) = \<lparr>unique_id = u, geom = p\<rparr> # dropna rows"

text \<open>
  \<open>_regions\<close>, with the columns \<open>region\<close> and \<open>vertices\<close> left out of the result (the
  caller selects \<open>[unique_id, 'geometry']\<close>). Assigning a column of another length than
  the table's raises \<open>ValueError\<close>.
\<close>

definition regions :: "kernel \<Rightarrow> voronoi \<Rightarrow> int list \<Rightarrow> error + feature list" where
  "regions k voronoi_diagram ids =
     (if length (v_point_region voronoi_diagram) \<noteq> length ids then Inl ValueError
      else
        ebind (map_err (py_index (v_regions voronoi_diagram)) (v_point_region voronoi_diagram))
          (\<lambda>vertices.
        ebind (map_err (region_polygon voronoi_diagram) vertices) (\<lambda>polygons.
          let regions_gdf = dropna (zip ids polygons);
              regions_gdf = filter (\<lambda>r. k_length k (geom r) < 1000000) regions_gdf;
              regions_gdf = filter (\<lambda>r. unique_id r \<noteq> - 1) regions_gdf
          in Inr regions_gdf)))"

section \<open>Clipping: \<open>_split_lines\<close> and \<open>_cut\<close>\<close>

text \<open>\<open>_pair\<close>: the pairs of consecutive coordinates.\<close>

definition pair :: "'a list \<Rightarrow> ('a \<times> 'a) list" where
  "pair cs = zip cs (tl cs)"

definition split_lines :: "kernel \<Rightarrow> geometry \<Rightarrow> real \<Rightarrow> error + geometry list" where
  "split_lines k polygon_in distance =
     (let dense = densify k polygon_in distance in
      case k_boundary k dense of
        None \<Rightarrow> Inl AttributeError
      | Some boundary \<Rightarrow>
          Inr (case boundary of
                 LineString cs \<Rightarrow>
                   map (\<lambda>(seg_start, seg_end). LineString [seg_start, seg_end]) (pair cs)
               | MultiLineString ls \<Rightarrow>
                   concat (map (\<lambda>cs. map (\<lambda>(seg_start, seg_end). LineString [seg_start, seg_end])
                                        (pair cs)) ls)
               | _ \<Rightarrow> []))"

text \<open>
  The positions of the rows appended to \<open>to_cut\<close>, in the order of appending: for every
  chord of the limit's boundary, the rows the index proposes whose geometry intersects
  the chord.
\<close>

definition to_cut :: "kernel \<Rightarrow> 'a feature_scheme list \<Rightarrow> geometry list \<Rightarrow> nat list" where
  "to_cut k tess geometry_cut =
     concat (map (\<lambda>poly.
        let possible_matches_index =
              sindex_intersection (sindex_build k (map geom tess)) (k_bounds k poly)
        in filter (\<lambda>i. k_intersects k (geom (tess ! i)) poly) possible_matches_index)
       geometry_cut)"

definition subselection :: "kernel \<Rightarrow> 'a feature_scheme list \<Rightarrow> geometry list \<Rightarrow> nat list" where
  "subselection k tess geometry_cut =
     drop_duplicates (\<lambda>i. unique_id (tess ! i)) (to_cut k tess geometry_cut)"

text \<open>
  One iteration of the loop \<open>Cutting...\<close>: \<open>row_geometry\<close> is the geometry of the row
  as \<open>tessellation.loc[subselection]\<close> copied it before the loop.
\<close>

definition cut_row ::
  "kernel \<Rightarrow> geometry \<Rightarrow> nat \<Rightarrow> geometry \<Rightarrow> 'a feature_scheme list \<Rightarrow> error + 'a feature_scheme list" where
  "cut_row k limit idx row_geometry tess =
     (let intersection = k_intersection k row_geometry limit in
      case intersection of
        MultiPolygon ps \<Rightarrow>
          (let areas = zip [0..<length ps] (map (\<lambda>p. k_area k (polygon_part p)) ps) in
           ebind (py_max snd areas) (\<lambda>item.
             Inr (set_geometry tess idx (polygon_part (ps ! fst item)))))
      | GeometryCollection gs \<Rightarrow>
          Inr (foldl (\<lambda>t g. if geom_type g \<noteq> ''Polygon'' then t else set_geometry t idx g)
                 tess gs)
      | _ \<Rightarrow> Inr (set_geometry tess idx intersection))"

fun cut_loop ::
  "kernel \<Rightarrow> geometry \<Rightarrow> 'a feature_scheme list \<Rightarrow> nat list \<Rightarrow> 'a feature_scheme list
     \<Rightarrow> error + 'a feature_scheme list" where
  "cut_loop k limit snapshot [] tess = Inr tess"
| "cut_loop k limit snapshot (idx # rest) tess =
     (case cut_row k limit idx (geom (snapshot ! idx)) tess of
        Inl e \<Rightarrow> Inl e
      | Inr tess' \<Rightarrow> cut_loop k limit snapshot rest tess')"

definition cut ::
  "kernel \<Rightarrow> 'a feature_scheme list \<Rightarrow> geometry \<Rightarrow> error + ('a feature_scheme list \<times> sindex)" where
  "cut k tess limit =
     ebind (split_lines k limit 100) (\<lambda>geometry_cut.
       let sindex = sindex_build k (map geom tess) in
       ebind (cut_loop k limit tess (subselection k tess geometry_cut) tess) (\<lambda>tess'.
         Inr (tess', sindex)))"

section \<open>Corner regularisation: \<open>_queen_corners\<close>\<close>

text \<open>\<open>cell.exterior.coords\<close> and \<open>cell.interiors\<close> exist for a Polygon only.\<close>

fun exterior_coords :: "geometry \<Rightarrow> error + coord list" where
  "exterior_coords (Polygon sh hs) = Inr sh"
| "exterior_coords g = Inl AttributeError"

fun interiors :: "geometry \<Rightarrow> error + coord list list" where
  "interiors (Polygon sh hs) = Inr hs"
| "interiors g = Inl AttributeError"

text \<open>The second component of an entry of \<open>changes\<close> is Python's builtin \<open>id\<close>.\<close>

datatype builtin = builtin_id

type_synonym changes = "coord \<Rightarrow> (coord \<times> builtin) option"

text \<open>The vertices of a cell that more than two cells of the table intersect.\<close>

definition corners_of :: "kernel \<Rightarrow> 'a feature_scheme list \<Rightarrow> sindex \<Rightarrow> coord list \<Rightarrow> coord list" where
  "corners_of k tess sindex cs =
     filter (\<lambda>i.
        let possible_matches_index = sindex_intersection sindex (k_bounds k (Point i));
            precise_matches =
              length (filter (\<lambda>j. k_intersects k (geom (tess ! j)) (Point i)) possible_matches_index)
        in 2 < precise_matches) cs"

definition change_of :: "kernel \<Rightarrow> real \<Rightarrow> coord list \<Rightarrow> (coord \<times> coord) list" where
  "change_of k sensitivity corners =
     (if 2 < length corners then
        filter (\<lambda>(c, next_c). k_distance k c next_c < sensitivity) (zip corners (rotate1 corners))
      else if length corners = 2 then
        (if 0 < k_distance k (corners ! 0) (corners ! 1)
            \<and> k_distance k (corners ! 0) (corners ! 1) < sensitivity
         then [(corners ! 0, corners ! 1)] else [])
      else [])"

definition record_change :: "changes \<Rightarrow> coord \<times> coord \<Rightarrow> changes" where
  "record_change chg points =
     (let new = (((fst (fst points) + fst (snd points)) / 2,
                  (snd (fst points) + snd (snd points)) / 2), builtin_id)
      in (chg(fst points \<mapsto> new))(snd points \<mapsto> new))"

text \<open>The first loop over the rows: it fills \<open>changes\<close>.\<close>

fun queen_changes ::
  "kernel \<Rightarrow> real \<Rightarrow> sindex \<Rightarrow> 'a feature_scheme list \<Rightarrow> 'a feature_scheme list \<Rightarrow> changes
     \<Rightarrow> error + changes" where
  "queen_changes k sensitivity sindex tess [] chg = Inr chg"
| "queen_changes k sensitivity sindex tess (row # rows) chg =
     (case exterior_coords (geom row) of
        Inl e \<Rightarrow> Inl e
      | Inr cs \<Rightarrow>
          queen_changes k sensitivity sindex tess rows
            (foldl record_change chg (change_of k sensitivity (corners_of k tess sindex cs))))"

text \<open>
  \<open>for coord in newcoords: if coord in delete_points: newcoords.remove(coord)\<close>: the
  list iterator advances by position while \<open>remove\<close> deletes the first equal element.
\<close>

function remove_loop :: "'a list \<Rightarrow> nat \<Rightarrow> 'a list \<Rightarrow> 'a list" where
  "remove_loop newcoords i delete_points =
     (if i < length newcoords then
        (if newcoords ! i \<in> set delete_points
         then remove_loop (remove1 (newcoords ! i) newcoords) (i + 1) delete_points
         else remove_loop newcoords (i + 1) delete_points)
      else newcoords)"
  by pat_completeness auto
termination
  by (relation "measure (\<lambda>(newcoords, i, delete_points). length newcoords - i)")
     (auto simp: length_remove1)

text \<open>
  The keys of \<open>moves\<close> in insertion order: \<open>coords.index(x)\<close> for the coordinates
  \<open>x\<close> that are keys of \<open>changes\<close>, each key once.
\<close>

definition index_of :: "'a list \<Rightarrow> 'a \<Rightarrow> nat" where
  "index_of xs x = length (takeWhile (\<lambda>y. y \<noteq> x) xs)"

definition moves_keys :: "changes \<Rightarrow> coord list \<Rightarrow> nat list" where
  "moves_keys chg cs =
     drop_duplicates (\<lambda>i. i) (map (index_of cs) (filter (\<lambda>x. chg x \<noteq> None) cs))"

text \<open>
  The points to delete. The test \<open>moves[...][1] == moves[...][1]\<close> of the source compares
  the builtin \<open>id\<close> with itself.
\<close>

definition delete_points_of :: "changes \<Rightarrow> coord list \<Rightarrow> coord list" where
  "delete_points_of chg cs =
     (let keys = moves_keys chg cs in
      concat (map (\<lambda>move.
         if map_option snd (chg (cs ! (keys ! move))) = map_option snd (chg (cs ! (keys ! (move + 1))))
            \<and> int (keys ! (move + 1)) - int (keys ! move) < 5
         then drop (keys ! move) (take (keys ! (move + 1)) cs) else [])
        [0..<length keys - 1]))"

text \<open>The new geometry of one cell, \<open>None\<close> when its coordinates do not change.\<close>

definition queen_newgeom :: "kernel \<Rightarrow> changes \<Rightarrow> geometry \<Rightarrow> error + geometry option" where
  "queen_newgeom k chg cell =
     ebind (exterior_coords cell) (\<lambda>cs.
       let delete_points = delete_points_of chg cs;
           newcoords = map (\<lambda>x. case chg x of Some new \<Rightarrow> fst new | None \<Rightarrow> x) cs;
           newcoords = remove_loop newcoords 0 delete_points
       in if cs = newcoords then Inr None
          else ebind (interiors cell) (\<lambda>holes.
            if holes = [] then
              ebind (polygon newcoords []) (\<lambda>p.
              ebind (exterior_coords p) (\<lambda>be.
                let mls = k_intersection k (LinearRing be) (LinearRing be);
                    polys = k_polygonize k mls
                in if 1 < length polys then
                     ebind (py_max snd (zip [0..<length polys] (map (k_area k) polys)))
                       (\<lambda>item. Inr (Some (polys ! fst item)))
                   else ebind (py_index polys 0) (\<lambda>p0. Inr (Some p0))))
            else ebind (polygon newcoords holes) (\<lambda>p. Inr (Some p))))"

text \<open>The second loop over the rows, each read as it was before the loop.\<close>

fun queen_apply ::
  "kernel \<Rightarrow> changes \<Rightarrow> (nat \<times> 'a feature_scheme) list \<Rightarrow> 'a feature_scheme list
     \<Rightarrow> error + 'a feature_scheme list" where
  "queen_apply k chg [] tess = Inr tess"
| "queen_apply k chg ((ix, row) # rows) tess =
     (case queen_newgeom k chg (geom row) of
        Inl e \<Rightarrow> Inl e
      | Inr None \<Rightarrow> queen_apply k chg rows tess
      | Inr (Some newgeom) \<Rightarrow> queen_apply k chg rows (set_geometry tess ix newgeom))"

definition queen_corners ::
  "kernel \<Rightarrow> 'a feature_scheme list \<Rightarrow> real \<Rightarrow> sindex \<Rightarrow> error + 'a feature_scheme list" where
  "queen_corners k tess sensitivity sindex =
     ebind (queen_changes k sensitivity sindex tess tess Map.empty) (\<lambda>chg.
       queen_apply k chg (zip [0..<length tess] tess) tess)"

section \<open>\<open>tessellation\<close>\<close>

text \<open>The table of Voronoi regions of the seeds.\<close>

definition tessellation_regions ::
  "kernel \<Rightarrow> 'a feature_scheme list \<Rightarrow> geometry \<Rightarrow> real \<Rightarrow> real \<Rightarrow> error + feature list" where
  "tessellation_regions k gdf limit shrink segment =
     ebind (tessellation_seeds k gdf limit shrink segment) (\<lambda>(points, ids).
       regions k (k_voronoi k points) ids)"

text \<open>
  \<open>tessellation\<close>. \<open>_check_result\<close> only emits warnings and is left out of the returned
  value.
\<close>

definition tessellation ::
  "kernel \<Rightarrow> 'a feature_scheme list \<Rightarrow> geometry \<Rightarrow> real \<Rightarrow> real \<Rightarrow> bool \<Rightarrow> real
     \<Rightarrow> error + feature list" where
  "tessellation k gdf limit shrink segment queen sensitivity =
     ebind (tessellation_regions k gdf limit shrink segment) (\<lambda>regions_gdf.
       let centre = get_centre k gdf;
           morphological_tessellation = dissolve k regions_gdf;
           morphological_tessellation =
             map (\<lambda>r. r\<lparr>geom := k_translate k (geom r) (fst centre) (snd centre)\<rparr>)
               morphological_tessellation
       in ebind (cut k morphological_tessellation limit) (\<lambda>(morphological_tessellation, sindex).
            if queen then queen_corners k morphological_tessellation sensitivity sindex
            else Inr morphological_tessellation))"

section \<open>Street snapping: \<open>snap_street_network_edge\<close>\<close>

subsection \<open>The street table\<close>

text \<open>
  A row of the street table: its index label and its geometry column; the other columns
  are the record's extension. Label-based access (\<open>.loc\<close>, \<open>drop\<close>) addresses every row
  of the label; \<open>drop\<close> raises \<open>KeyError\<close> for a label that is absent.
\<close>

record edge =
  index :: int
  edge_geom :: geometry

definition iloc :: "'a list \<Rightarrow> nat list \<Rightarrow> error + 'a list" where
  "iloc rows positions =
     (if list_all (\<lambda>p. p < length rows) positions then Inr (map (\<lambda>p. rows ! p) positions)
      else Inl IndexError)"

definition drop_label :: "int \<Rightarrow> 'a edge_scheme list \<Rightarrow> error + 'a edge_scheme list" where
  "drop_label idx rows =
     (if list_ex (\<lambda>r. index r = idx) rows then Inr (filter (\<lambda>r. index r \<noteq> idx) rows)
      else Inl KeyError)"

text \<open>\<open>network.loc[idx, 'geometry'] = g\<close>\<close>

definition set_edge_geometry :: "'a edge_scheme list \<Rightarrow> int \<Rightarrow> geometry \<Rightarrow> 'a edge_scheme list" where
  "set_edge_geometry network idx g =
     map (\<lambda>r. if index r = idx then r\<lparr>edge_geom := g\<rparr> else r) network"

text \<open>
  \<open>series.any()\<close> on a series of geometries: a shapely geometry is true when it is not
  empty.
\<close>

definition any_geometry :: "kernel \<Rightarrow> geometry list \<Rightarrow> bool" where
  "any_geometry k gs = list_ex (\<lambda>g. \<not> k_is_empty k g) gs"

subsection \<open>\<open>getExtrapoledLine\<close>\<close>

text \<open>
  The line from \<open>p2\<close> of length \<open>tolerance\<close> in the direction \<open>p1 \<rightarrow> p2\<close>. The quotient
  raises \<open>ZeroDivisionError\<close> when \<open>p1[0] - p2[0] + 0.000001\<close> is zero.
\<close>

definition getExtrapoledLine :: "coord \<Rightarrow> coord \<Rightarrow> real \<Rightarrow> error + geometry" where
  "getExtrapoledLine p1 p2 tolerance =
     (if \<bar>fst p1 - fst p2 + 0.000001\<bar> = 0 then Inl ZeroDivisionError
      else
        let EXTRAPOL_RATIO = tolerance;
            a = p2;
            angle = arctan (\<bar>snd p1 - snd p2 + 0.000001\<bar> / \<bar>fst p1 - fst p2 + 0.000001\<bar>);
            b = (if fst p1 \<ge> fst p2 \<and> snd p1 \<ge> snd p2 then
                   (fst p2 - EXTRAPOL_RATIO * cos angle, snd p2 - EXTRAPOL_RATIO * sin angle)
                 else if fst p1 \<le> fst p2 \<and> snd p1 \<ge> snd p2 then
                   (fst p2 + EXTRAPOL_RATIO * cos angle, snd p2 - EXTRAPOL_RATIO * sin angle)
                 else if fst p1 \<le> fst p2 \<and> snd p1 \<le> snd p2 then
                   (fst p2 + EXTRAPOL_RATIO * cos angle, snd p2 + EXTRAPOL_RATIO * sin angle)
                 else
                   (fst p2 - EXTRAPOL_RATIO * cos angle, snd p2 + EXTRAPOL_RATIO * sin angle))
        in Inr (LineString [a, b]))"

subsection \<open>The parts \<open>extend_line\<close> and \<open>extend_line_edge\<close> have in common\<close>

text \<open>
  The two points the ray is drawn through: the last two coordinates, or the two before
  the last one when the last segment is at most \<open>0.001\<close> long; \<open>None\<close> when the
  function returns \<open>False\<close> at this point. \<open>l_coords[-2]\<close> raises for a shorter list.
\<close>

definition extra_of :: "kernel \<Rightarrow> coord list \<Rightarrow> error + (coord \<times> coord) option" where
  "extra_of k l_coords =
     (let n = length l_coords in
      if n < 2 then Inl IndexError
      else if k_distance k (l_coords ! (n - 2)) (l_coords ! (n - 1)) \<le> 0.001 then
        (if 2 < n then Inr (Some (l_coords ! (n - 3), l_coords ! (n - 2))) else Inr None)
      else Inr (Some (l_coords ! (n - 2), l_coords ! (n - 1))))"

text \<open>
  What one intersection geometry adds to \<open>true_int\<close>: a Point itself, of a MultiPoint
  its members \<open>[0]\<close> and \<open>[1]\<close>, of anything else nothing.
\<close>

definition point_members :: "geometry \<Rightarrow> error + coord list" where
  "point_members g =
     (case g of
        Point c \<Rightarrow> Inr [c]
      | MultiPoint cs \<Rightarrow>
          ebind (py_index cs 0) (\<lambda>c0. ebind (py_index cs 1) (\<lambda>c1. Inr [c0, c1]))
      | _ \<Rightarrow> Inr [])"

text \<open>
  The new coordinate, for a non-empty \<open>true_int\<close>: with several candidates the one
  \<open>min(distances.items(), key=itemgetter(1))\<close> names, where \<open>distances[ix]\<close> is the distance
  of candidate \<open>ix\<close> to \<open>l_coords[-1]\<close>; with one candidate that one.
\<close>

definition new_point :: "kernel \<Rightarrow> coord list \<Rightarrow> coord \<Rightarrow> error + coord" where
  "new_point k true_int end_point =
     (if 1 < length true_int then
        (let distances = zip [0..<length true_int] (map (\<lambda>p. k_distance k p end_point) true_int) in
         ebind (py_min snd distances) (\<lambda>item. Inr (true_int ! fst item)))
      else py_index true_int 0)"

text \<open>
  The building test and the assignment, after \<open>l_coords.append(new_point_coords)\<close>:
  \<open>l_coords\<close> is the list with the new coordinate.
\<close>

definition commit_extension ::
  "kernel \<Rightarrow> 'b feature_scheme list \<Rightarrow> sindex \<Rightarrow> int \<Rightarrow> 'a edge_scheme list \<Rightarrow> coord list
     \<Rightarrow> error + 'a edge_scheme list" where
  "commit_extension k buildings bindex idx network l_coords =
     (let new_extended_line = LineString l_coords;
          possible_buildings_index = sindex_intersection bindex (k_bounds k new_extended_line)
      in ebind (iloc buildings possible_buildings_index) (\<lambda>possible_buildings.
           let possible_intersections =
                 map (\<lambda>b. k_intersection k (geom b) new_extended_line) possible_buildings
           in if any_geometry k possible_intersections then Inr network
              else Inr (set_edge_geometry network idx new_extended_line)))"

text \<open>What a call returns: \<open>False\<close>, or nothing (\<open>None\<close>).\<close>

datatype returned = ReturnsFalse | ReturnsNone

subsection \<open>\<open>extend_line\<close> and \<open>extend_line_edge\<close>\<close>

text \<open>
  The state both functions work on is the table \<open>network\<close> and the list \<open>l_coords\<close> of
  the enclosing loop; \<open>sindex\<close>, \<open>buildings\<close>, \<open>bindex\<close> and \<open>geometry\<close> are read only.
\<close>

definition extend_line ::
  "kernel \<Rightarrow> sindex \<Rightarrow> 'b feature_scheme list \<Rightarrow> sindex \<Rightarrow> real \<Rightarrow> int
     \<Rightarrow> 'a edge_scheme list \<times> coord list
     \<Rightarrow> error + (returned \<times> 'a edge_scheme list \<times> coord list)" where
  "extend_line k sindex buildings bindex tolerance idx state =
     (case state of (network, l_coords) \<Rightarrow>
      ebind (extra_of k l_coords) (\<lambda>extra.
        case extra of
          None \<Rightarrow> Inr (ReturnsFalse, network, l_coords)
        | Some (p1, p2) \<Rightarrow>
            ebind (getExtrapoledLine p1 p2 tolerance) (\<lambda>extrapolation.
            let possible_intersections_index = sindex_intersection sindex (k_bounds k extrapolation) in
            ebind (iloc network possible_intersections_index) (\<lambda>possible_intersections_lines.
            ebind (drop_label idx possible_intersections_lines) (\<lambda>possible_intersections_clean.
            let possible_intersections =
                  map (\<lambda>r. k_intersection k (edge_geom r) extrapolation) possible_intersections_clean
            in if any_geometry k possible_intersections then
                 ebind (map_err point_members possible_intersections) (\<lambda>found.
                   let true_int = concat found in
                   if 1 \<le> length true_int then
                     ebind (new_point k true_int (last l_coords)) (\<lambda>new_point_coords.
                       let l_coords = l_coords @ [new_point_coords] in
                       ebind (commit_extension k buildings bindex idx network l_coords)
                         (\<lambda>network. Inr (ReturnsNone, network, l_coords)))
                   else Inr (ReturnsNone, network, l_coords))
               else Inr (ReturnsFalse, network, l_coords))))))"

definition extend_line_edge ::
  "kernel \<Rightarrow> geometry option \<Rightarrow> 'b feature_scheme list \<Rightarrow> sindex \<Rightarrow> real \<Rightarrow> int
     \<Rightarrow> 'a edge_scheme list \<times> coord list
     \<Rightarrow> error + (returned \<times> 'a edge_scheme list \<times> coord list)" where
  "extend_line_edge k geometry_opt buildings bindex tolerance idx state =
     (case state of (network, l_coords) \<Rightarrow>
      ebind (extra_of k l_coords) (\<lambda>extra.
        case extra of
          None \<Rightarrow> Inr (ReturnsFalse, network, l_coords)
        | Some (p1, p2) \<Rightarrow>
            ebind (getExtrapoledLine p1 p2 tolerance) (\<lambda>extrapolation.
            case geometry_opt of
              None \<Rightarrow> Inl AttributeError
            | Some geometry \<Rightarrow>
                (let possible_intersections = k_intersection k geometry extrapolation in
                 case possible_intersections of
                   GeometryCollection gs \<Rightarrow> Inr (ReturnsNone, network, l_coords)
                 | _ \<Rightarrow>
                     ebind (point_members possible_intersections) (\<lambda>true_int.
                       if 1 \<le> length true_int then
                         ebind (new_point k true_int (last l_coords)) (\<lambda>new_point_coords.
                           let l_coords = l_coords @ [new_point_coords] in
                           ebind (commit_extension k buildings bindex idx network l_coords)
                             (\<lambda>network. Inr (ReturnsNone, network, l_coords)))
                       else Inr (ReturnsNone, network, l_coords))))))"

text \<open>
  \<open>if extend_line(tolerance_street, idx) is False: extend_line_edge(tolerance_edge, idx)\<close>
\<close>

definition extend_end ::
  "kernel \<Rightarrow> sindex \<Rightarrow> geometry option \<Rightarrow> 'b feature_scheme list \<Rightarrow> sindex \<Rightarrow> real \<Rightarrow> real \<Rightarrow> int
     \<Rightarrow> 'a edge_scheme list \<times> coord list \<Rightarrow> error + ('a edge_scheme list \<times> coord list)" where
  "extend_end k sindex geometry_opt buildings bindex tolerance_street tolerance_edge idx state =
     ebind (extend_line k sindex buildings bindex tolerance_street idx state) (\<lambda>(ret, state1).
       if ret = ReturnsFalse then
         ebind (extend_line_edge k geometry_opt buildings bindex tolerance_edge idx state1)
           (\<lambda>(ret2, state2). Inr state2)
       else Inr state1)"

subsection \<open>The loop over the street segments\<close>

text \<open>
  Whether another row that the index proposes for the point intersects the point. The
  row's own label is dropped from the proposals first.
\<close>

definition connected ::
  "kernel \<Rightarrow> sindex \<Rightarrow> 'a edge_scheme list \<Rightarrow> int \<Rightarrow> coord \<Rightarrow> error + bool" where
  "connected k sindex network idx pt =
     ebind (iloc network (sindex_intersection sindex (k_bounds k (Point pt)))) (\<lambda>possible_matches.
     ebind (drop_label idx possible_matches) (\<lambda>possible_matches_clean.
       Inr (list_ex (\<lambda>r. k_intersects k (edge_geom r) (Point pt)) possible_matches_clean)))"

text \<open>
  One iteration: \<open>idx\<close> and \<open>line_geom\<close> are the label and the geometry of the row as
  \<open>iterrows\<close> read them when the loop started.
\<close>

definition snap_row ::
  "kernel \<Rightarrow> sindex \<Rightarrow> geometry option \<Rightarrow> 'b feature_scheme list \<Rightarrow> sindex \<Rightarrow> real \<Rightarrow> real
     \<Rightarrow> int \<Rightarrow> geometry \<Rightarrow> 'a edge_scheme list \<Rightarrow> error + 'a edge_scheme list" where
  "snap_row k sindex geometry_opt buildings bindex tolerance_street tolerance_edge idx line_geom network =
     ebind (coords line_geom) (\<lambda>l_coords.
       if l_coords = [] then Inl IndexError
       else
         ebind (connected k sindex network idx (hd l_coords)) (\<lambda>first.
         ebind (connected k sindex network idx (last l_coords)) (\<lambda>second.
           if first \<and> second then Inr network
           else if first \<and> \<not> second then
             ebind (extend_end k sindex geometry_opt buildings bindex tolerance_street tolerance_edge
                      idx (network, l_coords))
               (\<lambda>(network, l_coords). Inr network)
           else if \<not> first \<and> second then
             ebind (extend_end k sindex geometry_opt buildings bindex tolerance_street tolerance_edge
                      idx (network, rev l_coords))
               (\<lambda>(network, l_coords). Inr network)
           else
             ebind (extend_end k sindex geometry_opt buildings bindex tolerance_street tolerance_edge
                      idx (network, l_coords))
               (\<lambda>(network, l_coords).
             ebind (extend_end k sindex geometry_opt buildings bindex tolerance_street tolerance_edge
                      idx (network, rev l_coords))
               (\<lambda>(network, l_coords). Inr network)))))"

fun snap_loop ::
  "kernel \<Rightarrow> sindex \<Rightarrow> geometry option \<Rightarrow> 'b feature_scheme list \<Rightarrow> sindex \<Rightarrow> real \<Rightarrow> real
     \<Rightarrow> (int \<times> geometry) list \<Rightarrow> 'a edge_scheme list \<Rightarrow> error + 'a edge_scheme list" where
  "snap_loop k sindex geometry_opt buildings bindex ts te [] network = Inr network"
| "snap_loop k sindex geometry_opt buildings bindex ts te ((idx, line_geom) # rows) network =
     (case snap_row k sindex geometry_opt buildings bindex ts te idx line_geom network of
        Inl e \<Rightarrow> Inl e
      | Inr network' \<Rightarrow> snap_loop k sindex geometry_opt buildings bindex ts te rows network')"

text \<open>
  The body of \<open>snap_street_network_edge\<close> on the copied table: both spatial indexes are
  built once before the loop, \<open>geometry\<close> is the boundary of the union of the cells.
\<close>

definition snap_network ::
  "kernel \<Rightarrow> 'a edge_scheme list \<Rightarrow> 'b feature_scheme list \<Rightarrow> 'c feature_scheme list \<Rightarrow> real \<Rightarrow> real
     \<Rightarrow> error + 'a edge_scheme list" where
  "snap_network k network buildings tessellation_gdf tolerance_street tolerance_edge =
     (let sindex = sindex_build k (map edge_geom network);
          bindex = sindex_build k (map geom buildings);
          geometry_opt = k_boundary k (k_unary_union k (map geom tessellation_gdf))
      in snap_loop k sindex geometry_opt buildings bindex tolerance_street tolerance_edge
           (map (\<lambda>r. (index r, edge_geom r)) network) network)"

text \<open>
  \<open>snap_street_network_edge\<close> with the tables as objects: the store holds the tables by
  address, \<open>edges\<close> is the address of the argument. \<open>edges.copy()\<close> allocates a new
  table; every assignment of the function goes to that table, which is returned. The
  model returns the store together with the result, the address of the new table or the
  exception raised.
\<close>

definition snap_street_network_edge ::
  "kernel \<Rightarrow> 'a edge_scheme list list \<Rightarrow> nat \<Rightarrow> 'b feature_scheme list \<Rightarrow> 'c feature_scheme list
     \<Rightarrow> real \<Rightarrow> real \<Rightarrow> 'a edge_scheme list list \<times> (error + nat)" where
  "snap_street_network_edge k store edges buildings tessellation_gdf tolerance_street tolerance_edge =
     (let network = length store;
          store = store @ [store ! edges]
      in case snap_network k (store ! network) buildings tessellation_gdf
                tolerance_street tolerance_edge of
           Inl e \<Rightarrow> (store, Inl e)
         | Inr rows \<Rightarrow> (store[network := rows], Inr network))"

section \<open>Block assembly: \<open>blocks\<close>\<close>

subsection \<open>Connected components of the Queen graph\<close>

text \<open>
  The inner loops of the component search for one seed \<open>idx\<close>:
  \<open>for n in neighbours: while n not in to_join: ...\<close>. The list \<open>neighbours\<close> grows while
  it is iterated; the third argument is the part of it that is still to be visited.
  \<open>spatial_weights.neighbors[n]\<close> raises \<open>KeyError\<close> for a key that is absent.
\<close>

function expand :: "nat list list \<Rightarrow> nat list \<Rightarrow> nat list \<Rightarrow> error + nat list" where
  "expand neighbors to_join [] = Inr to_join"
| "expand neighbors to_join (n # neighbours) =
     (if n \<in> set to_join then expand neighbors to_join neighbours
      else if n < length neighbors
        then expand neighbors (to_join @ [n]) (neighbours @ neighbors ! n)
        else Inl KeyError)"
  by pat_completeness auto
termination
proof (relation "measures [\<lambda>(neighbors, to_join, neighbours).
                             card ({..<length neighbors} - set to_join),
                           \<lambda>(neighbors, to_join, neighbours). length neighbours]")
  show "wf (measures [\<lambda>(neighbors, to_join, neighbours).
                             card ({..<length neighbors} - set to_join),
                           \<lambda>(neighbors, to_join, neighbours). length neighbours])"
    by simp
next
  fix neighbors :: "nat list list" and to_join :: "nat list" and n :: nat and neighbours :: "nat list"
  assume "n \<in> set to_join"
  then show "((neighbors, to_join, neighbours), (neighbors, to_join, n # neighbours))
        \<in> measures [\<lambda>(neighbors, to_join, neighbours). card ({..<length neighbors} - set to_join),
                     \<lambda>(neighbors, to_join, neighbours). length neighbours]"
    by simp
next
  fix neighbors :: "nat list list" and to_join :: "nat list" and n :: nat and neighbours :: "nat list"
  assume n: "n \<notin> set to_join" "n < length neighbors"
  have "{..<length neighbors} - set (to_join @ [n]) \<subset> {..<length neighbors} - set to_join"
    using n by auto
  then have "card ({..<length neighbors} - set (to_join @ [n]))
             < card ({..<length neighbors} - set to_join)"
    by (intro psubset_card_mono) simp_all
  then show "((neighbors, to_join @ [n], neighbours @ neighbors ! n),
              (neighbors, to_join, n # neighbours))
        \<in> measures [\<lambda>(neighbors, to_join, neighbours). card ({..<length neighbors} - set to_join),
                     \<lambda>(neighbors, to_join, neighbours). length neighbours]"
    by simp
qed

text \<open>
  The loop over the rows of \<open>blocks_gdf\<close>, whose index is \<open>0 .. n-1\<close>: \<open>patches\<close> is the
  dictionary from row index to component number, \<open>jID\<close> the next number.
\<close>

fun patches_loop ::
  "nat list list \<Rightarrow> nat list \<Rightarrow> (nat \<Rightarrow> nat option) \<Rightarrow> nat \<Rightarrow> error + (nat \<Rightarrow> nat option)" where
  "patches_loop neighbors [] patches jID = Inr patches"
| "patches_loop neighbors (idx # rows) patches jID =
     (if patches idx \<noteq> None then patches_loop neighbors rows patches jID
      else if length neighbors \<le> idx then Inl KeyError
      else
        (case expand neighbors [idx] (neighbors ! idx) of
           Inl e \<Rightarrow> Inl e
         | Inr to_join \<Rightarrow>
             patches_loop neighbors rows (foldl (\<lambda>p b. p(b \<mapsto> jID)) patches to_join) (jID + 1)))"

definition block_patches :: "nat list list \<Rightarrow> nat \<Rightarrow> error + (nat \<Rightarrow> nat option)" where
  "block_patches neighbors n = patches_loop neighbors [0..<n] Map.empty 1"

subsection \<open>Joins\<close>

text \<open>A row of a table of blocks: the column \<open>id_name\<close> and the geometry.\<close>

record block =
  bID :: nat
  block_geom :: geometry

text \<open>
  \<open>gpd.sjoin(left, right, how='left', op='intersects')\<close>, reduced to the columns the
  code reads afterwards: every left row with the block id of every right row that the
  R-tree over the right table proposes and that its geometry intersects; a left row
  without a match is kept once, with a missing block id (NaN).
\<close>

definition sjoin_left ::
  "kernel \<Rightarrow> 'b feature_scheme list \<Rightarrow> block list \<Rightarrow> ('b feature_scheme \<times> nat option) list" where
  "sjoin_left k left_df right_df =
     (let tree_idx = sindex_build k (map block_geom right_df) in
      concat (map (\<lambda>l.
        let found = filter (\<lambda>p. k_intersects k (geom l) (block_geom (right_df ! p)))
                      (sindex_intersection tree_idx (k_bounds k (geom l)))
        in if found = [] then [(l, None)]
           else map (\<lambda>p. (l, Some (bID (right_df ! p)))) found) left_df))"

text \<open>
  \<open>table.merge(lookup, on=unique_id)\<close> with a lookup of the columns
  \<open>[unique_id, id_name]\<close>: an inner join that keeps the order of the left rows and
  pairs every left row with every lookup row of its id.
\<close>

definition merge_on_id ::
  "'r feature_scheme list \<Rightarrow> (int \<times> nat option) list \<Rightarrow> ('r feature_scheme \<times> nat option) list" where
  "merge_on_id rows lookup =
     concat (map (\<lambda>r. map (\<lambda>e. (r, snd e)) (filter (\<lambda>e. fst e = unique_id r) lookup)) rows)"

subsection \<open>The stages of \<open>blocks\<close>\<close>

text \<open>
  The fragments: every cell minus the union of the buffered streets the index
  proposes, MultiPolygons split into their members.
\<close>

definition fragments :: "kernel \<Rightarrow> 'c feature_scheme list \<Rightarrow> 'a edge_scheme list \<Rightarrow> geometry list" where
  "fragments k tessellation_gdf edges =
     (let street_buff = map (\<lambda>e. k_buffer k (edge_geom e) 0.1 1 1) edges;
          streets_index = sindex_build k street_buff;
          new_geom = map (\<lambda>c.
             let possible_matches_index = sindex_intersection streets_index (k_bounds k (geom c));
                 possible_matches = map (\<lambda>p. street_buff ! p) possible_matches_index
             in k_difference k (geom c) (k_unary_union k possible_matches)) tessellation_gdf
      in concat (map (\<lambda>p. case p of MultiPolygon ps \<Rightarrow> map polygon_part ps | _ \<Rightarrow> [p]) new_geom))"

text \<open>
  The street-based blocks: the fragments dissolved by component number (groups in
  ascending order of the number), buffered, and numbered \<open>1, 2, ...\<close> in that order.
\<close>

definition blocks_single_of :: "kernel \<Rightarrow> geometry list \<Rightarrow> (nat \<Rightarrow> nat option) \<Rightarrow> block list" where
  "blocks_single_of k single_geom patches =
     (let rows = [0..<length single_geom];
          keys = sort (remdups (List.map_filter patches rows))
      in map (\<lambda>i. \<lparr>bID = i + 1,
                    block_geom = k_buffer k
                      (k_unary_union k
                         (map (\<lambda>r. single_geom ! r) (filter (\<lambda>r. patches r = Some (keys ! i)) rows)))
                      0.1 1 1\<rparr>)
           [0..<length keys])"

text \<open>
  The blocks made of whole cells: the cells dissolved by their block id (rows with a
  missing id are left out by the grouping), exploded to single parts.
\<close>

definition dissolve_cells :: "kernel \<Rightarrow> ('c feature_scheme \<times> nat option) list \<Rightarrow> geometry list" where
  "dissolve_cells k cells_copy =
     (let keys = sort (remdups (List.map_filter snd cells_copy)) in
      concat (map (\<lambda>key.
        parts (k_unary_union k (map (\<lambda>r. geom (fst r)) (filter (\<lambda>r. snd r = Some key) cells_copy))))
        keys))"

text \<open>
  \<open>blocks.exterior\<close> followed by \<open>Polygon(row['geometry'])\<close>: the polygon of the
  exterior ring, without the holes.
\<close>

definition exterior_polygon :: "geometry \<Rightarrow> error + geometry" where
  "exterior_polygon g = ebind (exterior_coords g) (\<lambda>ring. Inr (Polygon ring []))"

text \<open>
  The scan for nested blocks: block \<open>idx\<close> is marked when it lies within another block
  the index proposes. \<open>possible_matches.remove(idx)\<close> raises \<open>ValueError\<close> when the
  index does not propose the block itself.
\<close>

definition nested :: "kernel \<Rightarrow> geometry list \<Rightarrow> nat \<Rightarrow> error + bool" where
  "nested k geoms idx =
     (let possible_matches = sindex_intersection (sindex_build k geoms) (k_bounds k (geoms ! idx)) in
      if idx \<in> set possible_matches then
        Inr (list_ex (\<lambda>p. k_within k (geoms ! idx) (geoms ! p)) (remove1 idx possible_matches))
      else Inl ValueError)"

subsection \<open>\<open>blocks\<close>\<close>

text \<open>
  \<open>blocks\<close>, up to the table \<open>blocks_save\<close>. In the output tables the column \<open>id_name\<close>
  is the second component of a row.
\<close>

definition blocks_save_of ::
  "kernel \<Rightarrow> 'c feature_scheme list \<Rightarrow> 'a edge_scheme list \<Rightarrow> 'b feature_scheme list
     \<Rightarrow> error + block list" where
  "blocks_save_of k tessellation_gdf edges buildings =
     (let cells_copy = tessellation_gdf;
          single_geom = fragments k cells_copy edges;
          spatial_weights = k_queen k single_geom
      in ebind (block_patches spatial_weights (length single_geom)) (\<lambda>patches.
         let blocks_single = blocks_single_of k single_geom patches;
             buildings_c = map (\<lambda>b. b\<lparr>geom := k_representative_point k (geom b)\<rparr>) buildings;
             centroids_tempID = sjoin_left k buildings_c blocks_single;
             tempID_to_uID = map (\<lambda>r. (unique_id (fst r), snd r)) centroids_tempID;
             cells_copy = merge_on_id cells_copy tempID_to_uID
         in ebind (map_err exterior_polygon (dissolve_cells k cells_copy)) (\<lambda>geoms.
            ebind (map_err (nested k geoms) [0..<length geoms]) (\<lambda>delete.
              Inr (map (\<lambda>i. \<lparr>bID = i + 1, block_geom = geoms ! i\<rparr>)
                     (filter (\<lambda>i. \<not> delete ! i) [0..<length geoms]))))))"

definition blocks ::
  "kernel \<Rightarrow> 'c feature_scheme list \<Rightarrow> 'a edge_scheme list \<Rightarrow> 'b feature_scheme list
     \<Rightarrow> error + (('b feature_scheme \<times> nat option) list
                 \<times> ('c feature_scheme \<times> nat option) list \<times> block list)" where
  "blocks k tessellation_gdf edges buildings =
     ebind (blocks_save_of k tessellation_gdf edges buildings) (\<lambda>blocks_save.
       let buildings_c = map (\<lambda>b. b\<lparr>geom := k_representative_point k (geom b)\<rparr>) buildings;
           centroids_w_bl_ID2 = sjoin_left k buildings_c blocks_save;
           bl_ID_to_uID = map (\<lambda>r. (unique_id (fst r), snd r)) centroids_w_bl_ID2;
           buildings_out = merge_on_id buildings bl_ID_to_uID;
           cells = merge_on_id tessellation_gdf bl_ID_to_uID
       in Inr (buildings_out, cells, blocks_save))"

section \<open>Derived notions used in the proofs\<close>

text \<open>
  The geometry one iteration of the loop \<open>Cutting...\<close> leaves in the row, as a function
  of the row's geometry \<open>g\<close> before the loop and its geometry \<open>cur\<close> when the iteration
  starts. Lemma \<open>cut_row_clipped\<close> shows that the iteration assigns exactly this.
\<close>

definition clipped_geometry :: "kernel \<Rightarrow> geometry \<Rightarrow> geometry \<Rightarrow> geometry \<Rightarrow> error + geometry" where
  "clipped_geometry k limit g cur =
     (case k_intersection k g limit of
        MultiPolygon ps \<Rightarrow>
          ebind (py_max snd (zip [0..<length ps] (map (\<lambda>p. k_area k (polygon_part p)) ps)))
            (\<lambda>item. Inr (polygon_part (ps ! fst item)))
      | GeometryCollection gs \<Rightarrow>
          Inr (foldl (\<lambda>c g. if geom_type g \<noteq> ''Polygon'' then c else g) cur gs)
      | r \<Rightarrow> Inr r)"

text \<open>
  The relation between the street table \<open>net0\<close> the loop of \<open>snap_street_network_edge\<close>
  starts from and a table \<open>net\<close> it reaches: the same rows, labels and other columns, and
  each geometry either the original one or a LineString whose coordinates are the
  original coordinates (possibly reversed) with at most one coordinate added at each end.
\<close>

definition frame_inv :: "'a edge_scheme list \<Rightarrow> 'a edge_scheme list \<Rightarrow> bool" where
  "frame_inv net0 net \<longleftrightarrow>
     length net = length net0
     \<and> (\<forall>j < length net0.
          index (net ! j) = index (net0 ! j)
        \<and> edge.more (net ! j) = edge.more (net0 ! j)
        \<and> (edge_geom (net ! j) = edge_geom (net0 ! j)
           \<or> (\<exists>c pre post. coords (edge_geom (net0 ! j)) = Inr c
                \<and> length pre \<le> 1 \<and> length post \<le> 1
                \<and> (edge_geom (net ! j) = LineString (pre @ c @ post)
                   \<or> edge_geom (net ! j) = LineString (pre @ rev c @ post)))))"

text \<open>
  The Queen graph as a relation: the pairs \<open>(u, v)\<close> with \<open>v\<close> in the neighbour list of
  \<open>u\<close>. A well-formed neighbour table names existing rows only.
\<close>

definition adjacency :: "nat list list \<Rightarrow> (nat \<times> nat) set" where
  "adjacency neighbors = {(u, v). u < length neighbors \<and> v \<in> set (neighbors ! u)}"

definition well_formed :: "nat list list \<Rightarrow> bool" where
  "well_formed neighbors \<longleftrightarrow> (\<forall>u < length neighbors. \<forall>v \<in> set (neighbors ! u). v < length neighbors)"

text \<open>
  The invariant of the loop over the rows: the rows numbered so far are a union of whole
  components, two of them carry the same number exactly when they are connected, and
  every number given is below the next number \<open>jID\<close>.
\<close>

definition patches_inv :: "nat list list \<Rightarrow> (nat \<Rightarrow> nat option) \<Rightarrow> nat \<Rightarrow> bool" where
  "patches_inv neighbors patches jID \<longleftrightarrow>
     dom patches \<subseteq> {..<length neighbors}
     \<and> (\<forall>u \<in> dom patches. (adjacency neighbors)\<^sup>* `` {u} \<subseteq> dom patches)
     \<and> (\<forall>u \<in> dom patches. \<forall>v \<in> dom patches.
           patches u = patches v \<longleftrightarrow> (u, v) \<in> (adjacency neighbors)\<^sup>*)
     \<and> (\<forall>u j. patches u = Some j \<longrightarrow> j < jID)"

section \<open>A small concrete kernel and concrete inputs\<close>

text \<open>
  To run the model on explicit inputs the kernel has to be instantiated. \<open>boundary0\<close>
  is the boundary of the simple geometry kinds as the OGC model and shapely define it:
  a polygon's boundary is its ring (a LineString) or its rings (a MultiLineString), a
  line's boundary is the pair of its end points, a point's boundary is empty. The other
  operations of \<open>kernel0\<close> are trivial; an example replaces the ones it needs.
\<close>

fun boundary0 :: "geometry \<Rightarrow> geometry option" where
  "boundary0 (Polygon sh []) = Some (LineString sh)"
| "boundary0 (Polygon sh hs) = Some (MultiLineString (sh # hs))"
| "boundary0 (LineString cs) = Some (MultiPoint [hd cs, last cs])"
| "boundary0 (Point c) = Some (GeometryCollection [])"
| "boundary0 g = None"

definition kernel0 :: kernel where
  "kernel0 = \<lparr>
     k_boundary = boundary0,
     k_bounds = (\<lambda>g. (0, 0, 0, 0)),
     k_is_empty = (\<lambda>g. g = GeometryCollection []),
     k_translate = (\<lambda>g x y. g),
     k_buffer = (\<lambda>g d c j. g),
     k_segmentize = (\<lambda>g s. Some g),
     k_convex_hull = (\<lambda>g. g),
     k_voronoi = (\<lambda>ps. \<lparr>v_point_region = [], v_regions = [], v_vertices = []\<rparr>),
     k_length = (\<lambda>g. 0),
     k_area = (\<lambda>g. 0),
     k_unary_union = (\<lambda>gs. GeometryCollection gs),
     k_intersection = (\<lambda>g h. GeometryCollection []),
     k_intersects = (\<lambda>g h. False),
     k_distance = (\<lambda>a b. 0),
     k_polygonize = (\<lambda>g. []),
     k_difference = (\<lambda>g h. g),
     k_within = (\<lambda>g h. False),
     k_representative_point = (\<lambda>g. g),
     k_queen = (\<lambda>gs. map (\<lambda>g. []) gs)
   \<rparr>"

definition square0 :: geometry where
  "square0 = Polygon [(0, 0), (1, 0), (1, 1), (0, 1), (0, 0)] []"

definition objects_c3 :: "feature list" where
  "objects_c3 =
     [\<lparr>unique_id = 1, geom = LineString [(0, 0), (1, 1)]\<rparr>,
      \<lparr>unique_id = 2, geom = square0\<rparr>]"

text \<open>
  A run of \<open>tessellation\<close>: two square buildings, a toy Voronoi diagram with four
  regions (the last unbounded), and a kernel in which every cell is cut by the limit.
\<close>

definition kernel1 :: kernel where
  "kernel1 = kernel0\<lparr>
     k_voronoi := (\<lambda>ps. \<lparr>v_point_region = [0, 1, 0, 1, 0, 2, 2, 2, 2, 2, 3, 3, 3, 3, 3],
                          v_regions = [[0, 1, 2], [1, 2, 3], [2, 3, 0], [- 1, 0, 1]],
                          v_vertices = [(0, 0), (4, 0), (4, 4), (0, 4)]\<rparr>),
     k_intersection := (\<lambda>g h. g),
     k_intersects := (\<lambda>g h. True)\<rparr>"

definition gdf1 :: "feature list" where
  "gdf1 = [\<lparr>unique_id = 1, geom = square0\<rparr>,
           \<lparr>unique_id = 2, geom = Polygon [(2, 0), (3, 0), (3, 1), (2, 1), (2, 0)] []\<rparr>]"

definition limit1 :: geometry where
  "limit1 = Polygon [(- 1, - 1), (5, - 1), (5, 5), (- 1, 5), (- 1, - 1)] []"

definition cells1 :: "feature list" where
  "cells1 = [\<lparr>unique_id = 1, geom = Polygon [(0, 0), (4, 0), (4, 4), (0, 0)] []\<rparr>,
             \<lparr>unique_id = 2, geom = Polygon [(4, 4), (0, 4), (0, 0), (4, 4)] []\<rparr>]"

text \<open>A kernel whose \<open>buffer\<close> reports the cap and the join style it is called with.\<close>

definition kernel_styles :: kernel where
  "kernel_styles = kernel0\<lparr>k_buffer := (\<lambda>g d c j. Point (real c, real j))\<rparr>"

text \<open>
  A run of \<open>_cut\<close> with three cells: the first meets the limit in one polygon, the
  second in a MultiPolygon of two members, the third in a mixed collection. The toy
  area of a polygon is the number of its coordinates.
\<close>

definition tri_small :: "coord list \<times> coord list list" where
  "tri_small = ([(0, 0), (1, 0), (0, 1), (0, 0)], [])"

definition quad_big :: "coord list \<times> coord list list" where
  "quad_big = ([(2, 0), (4, 0), (4, 2), (2, 2), (2, 0)], [])"

definition cell_a :: geometry where
  "cell_a = Polygon [(0, 0), (9, 0), (9, 9), (0, 0)] []"

definition cell_b :: geometry where
  "cell_b = Polygon [(0, 0), (8, 0), (8, 8), (0, 0)] []"

definition cell_c :: geometry where
  "cell_c = Polygon [(0, 0), (7, 0), (7, 7), (0, 0)] []"

definition kernel2 :: kernel where
  "kernel2 = kernel0\<lparr>
     k_intersects := (\<lambda>g h. True),
     k_area := (\<lambda>g. case g of Polygon sh hs \<Rightarrow> real (length sh) | _ \<Rightarrow> 0),
     k_intersection := (\<lambda>g h.
        if g = cell_a then square0
        else if g = cell_b then MultiPolygon [tri_small, quad_big, quad_big]
        else if g = cell_c then
          GeometryCollection [polygon_part tri_small, Point (0, 0), polygon_part quad_big,
                              LineString [(0, 0), (1, 1)]]
        else g)\<rparr>"

definition tess2 :: "feature list" where
  "tess2 = [\<lparr>unique_id = 1, geom = cell_a\<rparr>, \<lparr>unique_id = 2, geom = cell_b\<rparr>,
            \<lparr>unique_id = 3, geom = cell_c\<rparr>]"

definition chords1 :: "geometry list" where
  "chords1 = [LineString [(- 1, - 1), (5, - 1)], LineString [(5, - 1), (5, 5)],
              LineString [(5, 5), (- 1, 5)], LineString [(- 1, 5), (- 1, - 1)]]"

definition out2 :: "feature list" where
  "out2 = [\<lparr>unique_id = 1, geom = square0\<rparr>, \<lparr>unique_id = 2, geom = polygon_part quad_big\<rparr>,
           \<lparr>unique_id = 3, geom = polygon_part quad_big\<rparr>]"

text \<open>
  A kernel in which every geometry lies within the limit (intersecting with the limit
  gives the geometry back) and touches the limit's boundary, and a table whose first two
  cells are multi-part.
\<close>

definition kernel9 :: kernel where
  "kernel9 = kernel0\<lparr>
     k_intersects := (\<lambda>g h. True),
     k_area := (\<lambda>g. case g of Polygon sh hs \<Rightarrow> real (length sh) | _ \<Rightarrow> 0),
     k_intersection := (\<lambda>g h. g)\<rparr>"

definition tess9 :: "feature list" where
  "tess9 = [\<lparr>unique_id = 1, geom = MultiPolygon [tri_small, quad_big]\<rparr>,
            \<lparr>unique_id = 2,
               geom = GeometryCollection [Point (0, 0), polygon_part tri_small,
                                          LineString [(0, 0), (1, 1)]]\<rparr>,
            \<lparr>unique_id = 3, geom = square0\<rparr>]"

definition out9 :: "feature list" where
  "out9 = [\<lparr>unique_id = 1, geom = polygon_part quad_big\<rparr>,
           \<lparr>unique_id = 2, geom = polygon_part tri_small\<rparr>,
           \<lparr>unique_id = 3, geom = square0\<rparr>]"

text \<open>
  A street table of two edges with the labels 7 and 9. Edge 7 runs from \<open>(0, 0)\<close> to
  \<open>(10, 0)\<close>; its start is connected, its end is free. Edge 9 is a zigzag that the ray
  from \<open>(10, 0)\<close> meets three times, in the MultiPoint \<open>(18 0, 15 0, 12 0)\<close>. A building
  stands between the end of edge 7 and the zigzag: every line meets it in \<open>(11, 0)\<close>.
  The toy distance is the Manhattan distance; all bounding boxes coincide.
\<close>

definition zigzag :: geometry where
  "zigzag = LineString [(18, - 1), (18, 1), (15, 1), (15, - 1), (12, - 1), (12, 1)]"

definition building_s :: geometry where
  "building_s = Polygon [(11, - 1), (11, 1), (11.5, 1), (11.5, - 1), (11, - 1)] []"

definition kernel_s :: kernel where
  "kernel_s = kernel0\<lparr>
     k_distance := (\<lambda>a b. \<bar>fst a - fst b\<bar> + \<bar>snd a - snd b\<bar>),
     k_intersects := (\<lambda>g h. h = Point (0, 0)),
     k_unary_union := (\<lambda>gs. limit1),
     k_intersection := (\<lambda>g h.
        if g = zigzag then MultiPoint [(18, 0), (15, 0), (12, 0)]
        else if g = building_s then Point (11, 0)
        else GeometryCollection [])\<rparr>"

definition net_s :: "edge list" where
  "net_s = [\<lparr>index = 7, edge_geom = LineString [(0, 0), (10, 0)]\<rparr>,
            \<lparr>index = 9, edge_geom = zigzag\<rparr>]"

definition net_s' :: "edge list" where
  "net_s' = [\<lparr>index = 7, edge_geom = LineString [(0, 0), (10, 0), (15, 0)]\<rparr>,
             \<lparr>index = 9, edge_geom = zigzag\<rparr>]"

definition buildings_s :: "feature list" where
  "buildings_s = [\<lparr>unique_id = 1, geom = building_s\<rparr>]"

definition sindex_s :: sindex where
  "sindex_s = sindex_build kernel_s (map edge_geom net_s)"

definition bindex_s :: sindex where
  "bindex_s = sindex_build kernel_s (map geom buildings_s)"

text \<open>
  Three fragments: the first two are neighbours, the third is an island. In the second
  table the first and the third fragment have changed places.
\<close>

definition nbs3 :: "nat list list" where
  "nbs3 = [[1], [0], []]"

definition nbs3' :: "nat list list" where
  "nbs3' = [[], [2], [1]]"

definition swap02 :: "nat \<Rightarrow> nat" where
  "swap02 i = (if i = 0 then 2 else if i = 2 then 0 else i)"

text \<open>
  A run of \<open>blocks\<close>. Three cells lie side by side, \<open>[0,4]\<close>, \<open>[4,6]\<close> and \<open>[6,10]\<close> wide;
  a street runs along \<open>x = 5\<close> through the middle cell and cuts it in two fragments. The
  buildings 1 and 2 stand left and right of the street, building 3 stands across it: its
  representative point \<open>(5, 2)\<close> lies on the street's centre line, where the two buffered
  street-based blocks meet. In \<open>kernel_b\<close> a point intersects a rectangle when it lies
  in it, border included; all bounding boxes coincide.
\<close>

definition rect :: "real \<Rightarrow> real \<Rightarrow> real \<Rightarrow> real \<Rightarrow> coord list" where
  "rect x0 y0 x1 y1 = [(x0, y0), (x1, y0), (x1, y1), (x0, y1), (x0, y0)]"

definition cell1 :: geometry where "cell1 = Polygon (rect 0 0 4 4) []"
definition cell2 :: geometry where "cell2 = Polygon (rect 6 0 10 4) []"
definition cell3 :: geometry where "cell3 = Polygon (rect 4 0 6 4) []"
definition street5 :: geometry where "street5 = LineString [(5, - 1), (5, 5)]"
definition bldg1 :: geometry where "bldg1 = Polygon (rect 1 1 3 3) []"
definition bldg2 :: geometry where "bldg2 = Polygon (rect 7 1 9 3) []"
definition bldg3 :: geometry where "bldg3 = Polygon (rect 4.5 1 5.5 3) []"

definition in_rect :: "geometry \<Rightarrow> geometry \<Rightarrow> bool" where
  "in_rect g h =
     (case g of
        Point pt \<Rightarrow>
          (case h of
             Polygon (a # b # c # ring) holes \<Rightarrow>
               fst a \<le> fst pt \<and> fst pt \<le> fst b \<and> snd a \<le> snd pt \<and> snd pt \<le> snd c
           | _ \<Rightarrow> False)
      | _ \<Rightarrow> False)"

definition kernel_b :: kernel where
  "kernel_b = kernel0\<lparr>
     k_buffer := (\<lambda>g d c j.
        if g = street5 then Polygon (rect 4.9 (- 1) 5.1 5) []
        else if g = Polygon (rect 0 0 4.9 4) [] then Polygon (rect (- 0.1) (- 0.1) 5 4.1) []
        else if g = Polygon (rect 5.1 0 10 4) [] then Polygon (rect 5 (- 0.1) 10.1 4.1) []
        else g),
     k_difference := (\<lambda>g h.
        if g = cell3 then MultiPolygon [(rect 4 0 4.9 4, []), (rect 5.1 0 6 4, [])] else g),
     k_unary_union := (\<lambda>gs.
        if gs = [cell1, Polygon (rect 4 0 4.9 4) []] then Polygon (rect 0 0 4.9 4) []
        else if gs = [cell2, Polygon (rect 5.1 0 6 4) []] then Polygon (rect 5.1 0 10 4) []
        else if gs = [cell1, cell3] then Polygon (rect 0 0 6 4) []
        else if gs = [cell2, cell3] then Polygon (rect 4 0 10 4) []
        else GeometryCollection gs),
     k_queen := (\<lambda>gs. [[2], [3], [0], [1]]),
     k_representative_point := (\<lambda>g.
        if g = bldg1 then Point (2, 2) else if g = bldg2 then Point (8, 2) else Point (5, 2)),
     k_intersects := in_rect\<rparr>"

definition tess_b :: "feature list" where
  "tess_b = [\<lparr>unique_id = 1, geom = cell1\<rparr>, \<lparr>unique_id = 2, geom = cell2\<rparr>,
             \<lparr>unique_id = 3, geom = cell3\<rparr>]"

definition buildings_b :: "feature list" where
  "buildings_b = [\<lparr>unique_id = 1, geom = bldg1\<rparr>, \<lparr>unique_id = 2, geom = bldg2\<rparr>,
                  \<lparr>unique_id = 3, geom = bldg3\<rparr>]"

definition edges_b :: "edge list" where
  "edges_b = [\<lparr>index = 0, edge_geom = street5\<rparr>]"

definition blocks_b :: "block list" where
  "blocks_b = [\<lparr>bID = 1, block_geom = Polygon (rect 0 0 6 4) []\<rparr>,
               \<lparr>bID = 2, block_geom = Polygon (rect 4 0 10 4) []\<rparr>]"

chapter \<open>Properties\<close>

section \<open>Properties of seed generation\<close>

lemma point_array_row_invalid:
  assumes "k_boundary k (geom r) = Some b"
    and "\<forall>cs. b \<noteq> LineString cs" and "\<forall>ls. b \<noteq> MultiLineString ls"
  shows "point_array_row k r acc = Inl (Exception (''Boundary type is '' @ geom_type b))"
  using assms by (cases acc; cases b) (simp_all add: point_array_row_def)

lemma point_array_row_Inl:
  assumes "point_array_row k r acc = Inl e"
  shows "\<exists>b. k_boundary k (geom r) = Some b \<and> (\<forall>cs. b \<noteq> LineString cs)
           \<and> (\<forall>ls. b \<noteq> MultiLineString ls)
           \<and> e = Exception (''Boundary type is '' @ geom_type b)"
  using assms
  by (cases acc) (auto simp: point_array_row_def split: option.splits geometry.splits)

lemma point_array_loop_aborts:
  assumes "r \<in> set rows" and "k_boundary k (geom r) = Some b"
    and "\<forall>cs. b \<noteq> LineString cs" and "\<forall>ls. b \<noteq> MultiLineString ls"
  shows "\<exists>r'\<in>set rows. \<exists>b'. k_boundary k (geom r') = Some b' \<and>
           point_array_loop k rows acc = Inl (Exception (''Boundary type is '' @ geom_type b'))"
  using assms
proof (induction rows arbitrary: acc)
  case Nil
  then show ?case by simp
next
  case (Cons x xs)
  show ?case
  proof (cases "point_array_row k x acc")
    case (Inl e)
    then obtain b' where "k_boundary k (geom x) = Some b'"
      and "e = Exception (''Boundary type is '' @ geom_type b')"
      using point_array_row_Inl by blast
    with Inl show ?thesis by auto
  next
    case (Inr acc')
    have "r \<noteq> x"
    proof
      assume "r = x"
      with Cons.prems Inr point_array_row_invalid[of k r b acc] show False by simp
    qed
    with Cons.prems have "r \<in> set xs" by simp
    from Cons.IH[OF this Cons.prems(2,3,4), of acc'] Inr show ?thesis by auto
  qed
qed

text \<open>
  Claim C3, as amended. A footprint whose boundary is present and is neither a
  LineString nor a MultiLineString makes \<open>_point_array\<close> raise
  \<open>Exception('Boundary type is <kind>')\<close>; the exception ends the whole call, so no
  points and no ids are returned for any footprint of the table.
\<close>

theorem point_array_invalid_boundary_aborts_call:
  assumes "r \<in> set objects" and "k_boundary k (geom r) = Some b"
    and "\<forall>cs. b \<noteq> LineString cs" and "\<forall>ls. b \<noteq> MultiLineString ls"
  shows "\<exists>r'\<in>set objects. \<exists>b'. k_boundary k (geom r') = Some b' \<and>
           point_array k objects = Inl (Exception (''Boundary type is '' @ geom_type b'))"
  unfolding point_array_def using point_array_loop_aborts[OF assms] .

theorem point_array_invalid_boundary_aborts_call_witness:
  "point_array kernel0 objects_c3 = Inl (Exception ''Boundary type is MultiPoint'')"
proof -
  let ?r = "\<lparr>unique_id = 1, geom = LineString [(0, 0), (1, 1)]\<rparr>"
  have 1: "?r \<in> set objects_c3" by (simp add: objects_c3_def)
  have 2: "k_boundary kernel0 (geom ?r) = Some (MultiPoint [(0, 0), (1, 1)])"
    by (simp add: kernel0_def)
  from point_array_invalid_boundary_aborts_call[OF 1 2]
  obtain r' b' where "r' \<in> set objects_c3" "k_boundary kernel0 (geom r') = Some b'"
    "point_array kernel0 objects_c3 = Inl (Exception (''Boundary type is '' @ geom_type b'))"
    by auto
  moreover have "point_array kernel0 objects_c3 = Inl (Exception ''Boundary type is MultiPoint'')"
    by (simp add: point_array_def point_array_row_def objects_c3_def kernel0_def)
  ultimately show ?thesis by simp
qed

text \<open>
  Claim C3 as stated fails: the footprint with id 1 has a MultiPoint boundary, and the
  square with id 2 after it is not processed. The call returns no seeds at all.
\<close>

theorem point_array_abort_counterexample:
  "point_array kernel0 objects_c3 = Inl (Exception ''Boundary type is MultiPoint'') \<and>
   \<not> (\<exists>points ids. point_array kernel0 objects_c3 = Inr (points, ids) \<and> 2 \<in> set ids)"
  by (simp add: point_array_def point_array_row_def objects_c3_def kernel0_def)

section \<open>The erosion step\<close>

text \<open>
  Claim C4, as amended. \<open>tessellation\<close> erodes every (recentred) footprint by
  \<open>buffer(-shrink, cap_style=2, join_style=2)\<close>: in shapely's enumerations the caps are
  flat and the joins are mitred. The eroded table is then exploded and densified.
\<close>

theorem erode_flat_mitre:
  "erode k shrink g
     = k_buffer k g (- shrink) (cap_style_value CAP_flat) (join_style_value JOIN_mitre)
   \<and> tessellation_objects k gdf shrink segment
     = map (\<lambda>r. r\<lparr>geom := densify k (geom r) segment\<rparr>)
         (explode (map (\<lambda>r. r\<lparr>geom := k_buffer k
              (k_translate k (geom r) (- fst (get_centre k gdf)) (- snd (get_centre k gdf)))
              (- shrink) (cap_style_value CAP_flat) (join_style_value JOIN_mitre)\<rparr>) gdf))"
  by (simp add: erode_def tessellation_objects_def Let_def comp_def)

text \<open>
  Claim C4 as stated fails: the styles the erosion passes to \<open>buffer\<close> are not the round
  ones. With a kernel whose \<open>buffer\<close> reports its styles, the erosion reports \<open>(2, 2)\<close>,
  flat and mitre, while a rounded offset would report \<open>(1, 1)\<close>.
\<close>

theorem erode_not_rounded_counterexample:
  "erode kernel_styles (2 / 5) square0 = Point (2, 2)
   \<and> k_buffer kernel_styles square0 (- (2 / 5))
         (cap_style_value CAP_round) (join_style_value JOIN_round) = Point (1, 1)
   \<and> erode kernel_styles (2 / 5) square0
       \<noteq> k_buffer kernel_styles square0 (- (2 / 5))
           (cap_style_value CAP_round) (join_style_value JOIN_round)"
  by (simp add: erode_def kernel_styles_def kernel0_def)

section \<open>One cell per owner id\<close>

lemma set_geometry_ids: "map unique_id (set_geometry t i g) = map unique_id t"
  by (cases "i < length t") (simp_all add: set_geometry_def map_update list_update_same_conv list_update_beyond)

lemma set_geometry_length: "length (set_geometry t i g) = length t"
  by (simp add: set_geometry_def)

lemma foldl_set_geometry_ids:
  "map unique_id (foldl (\<lambda>t g. if P g then t else set_geometry t idx g) t gs) = map unique_id t"
  by (induction gs arbitrary: t) (simp_all add: set_geometry_ids)

lemma cut_row_ids:
  assumes "cut_row k limit idx g t = Inr t'"
  shows "map unique_id t' = map unique_id t"
  using assms
  by (auto simp: cut_row_def Let_def ebind_def set_geometry_ids foldl_set_geometry_ids
      split: geometry.splits sum.splits)

lemma cut_loop_ids:
  assumes "cut_loop k limit snap sub t = Inr t'"
  shows "map unique_id t' = map unique_id t"
  using assms
proof (induction sub arbitrary: t)
  case Nil
  then show ?case by simp
next
  case (Cons idx rest)
  then show ?case
    by (auto split: sum.splits dest: cut_row_ids)
qed

lemma cut_ids:
  assumes "cut k tess limit = Inr (t', sx)"
  shows "map unique_id t' = map unique_id tess"
  using assms
  by (auto simp: cut_def ebind_def Let_def split: sum.splits dest: cut_loop_ids)

lemma queen_apply_ids:
  assumes "queen_apply k chg rows t = Inr t'"
  shows "map unique_id t' = map unique_id t"
  using assms
proof (induction rows arbitrary: t)
  case Nil
  then show ?case by simp
next
  case (Cons r rows)
  obtain ix row where r: "r = (ix, row)" by (cases r)
  from Cons.prems show ?case unfolding r
    by (auto split: sum.splits option.splits dest!: Cons.IH simp: set_geometry_ids)
qed

lemma queen_corners_ids:
  assumes "queen_corners k t s sx = Inr t'"
  shows "map unique_id t' = map unique_id t"
  using assms
  by (auto simp: queen_corners_def ebind_def split: sum.splits dest: queen_apply_ids)

lemma dissolve_ids: "map unique_id (dissolve k rows) = sort (remdups (map unique_id rows))"
  by (simp add: dissolve_def comp_def)

lemma dissolve_distinct: "distinct (map unique_id (dissolve k rows))"
  by (simp add: dissolve_ids)

lemma dissolve_ids_set: "unique_id ` set (dissolve k rows) = unique_id ` set rows"
proof -
  have "set (map unique_id (dissolve k rows)) = set (map unique_id rows)"
    by (simp add: dissolve_ids)
  then show ?thesis by simp
qed

lemma distinct_key_filter_one:
  assumes "distinct (map f xs)" and "c \<in> set xs"
  shows "length (filter (\<lambda>r. f r = f c) xs) = 1"
  using assms
proof (induction xs)
  case Nil
  then show ?case by simp
next
  case (Cons x xs)
  show ?case
  proof (cases "f x = f c")
    case True
    with Cons.prems have "f c \<notin> f ` set xs" by auto
    then have "\<forall>r \<in> set xs. f r \<noteq> f c" by (metis imageI)
    then have "filter (\<lambda>r. f r = f c) xs = []" by (simp add: filter_empty_conv)
    with True show ?thesis by simp
  next
    case False
    with Cons.prems have "c \<in> set xs" by auto
    with Cons False show ?thesis by simp
  qed
qed

text \<open>
  Claim C1. Whenever \<open>tessellation\<close> returns a table, no id occurs twice in it: every
  row's id is the id of exactly one row, and the ids of the table are exactly the ids of
  the surviving Voronoi regions (\<open>dissolve\<close> merges all regions of one id, also those of
  the several parts of an eroded footprint; clipping and corner regularisation assign
  geometries only).
\<close>

theorem tessellation_unique_ids:
  assumes "tessellation k gdf limit shrink segment queen sensitivity = Inr cells"
  shows "distinct (map unique_id cells)
       \<and> (\<forall>c \<in> set cells. length (filter (\<lambda>r. unique_id r = unique_id c) cells) = 1)
       \<and> (\<exists>regions_gdf. tessellation_regions k gdf limit shrink segment = Inr regions_gdf
            \<and> unique_id ` set cells = unique_id ` set regions_gdf)"
proof -
  from assms obtain regions_gdf where
    rg: "tessellation_regions k gdf limit shrink segment = Inr regions_gdf"
    by (auto simp: tessellation_def ebind_def split: sum.splits)
  define centre where "centre = get_centre k gdf"
  define mt where
    "mt = map (\<lambda>r. r\<lparr>geom := k_translate k (geom r) (fst centre) (snd centre)\<rparr>) (dissolve k regions_gdf)"
  have mt_ids: "map unique_id mt = map unique_id (dissolve k regions_gdf)"
    by (simp add: mt_def comp_def)
  from assms rg obtain t sx where
    c: "cut k mt limit = Inr (t, sx)"
    and q: "(if queen then queen_corners k t sensitivity sx else Inr t) = Inr cells"
    by (auto simp: tessellation_def ebind_def Let_def mt_def centre_def split: sum.splits)
  have "map unique_id cells = map unique_id t"
    using q by (auto split: if_splits dest: queen_corners_ids)
  also have "\<dots> = map unique_id mt" using c by (rule cut_ids)
  finally have ids: "map unique_id cells = map unique_id (dissolve k regions_gdf)"
    using mt_ids by simp
  have d: "distinct (map unique_id cells)" by (simp add: ids dissolve_distinct)
  have one: "length (filter (\<lambda>r. unique_id r = unique_id c) cells) = 1" if "c \<in> set cells" for c
    using d that by (rule distinct_key_filter_one)
  have "set (map unique_id cells) = set (map unique_id (dissolve k regions_gdf))"
    by (simp only: ids)
  then have s: "unique_id ` set cells = unique_id ` set regions_gdf"
    using dissolve_ids_set[of k regions_gdf] by simp
  from d one rg s show ?thesis by blast
qed

lemma seeds1: "tessellation_seeds kernel1 gdf1 limit1 (2/5) (1/2) = 
  Inr ([(0, 0), (1, 0), (1, 1), (0, 1), (0, 0), (2, 0), (3, 0), (3, 1), (2, 1), (2, 0),
     (- 1, - 1), (5, - 1), (5, 5), (- 1, 5), (- 1, - 1)],
    [1, 1, 1, 1, 1, 2, 2, 2, 2, 2, - 1, - 1, - 1, - 1, - 1])"
  by (simp add: tessellation_seeds_def tessellation_objects_def point_array_def point_array_row_def
      kernel1_def kernel0_def gdf1_def limit1_def square0_def explode_def densify_def erode_def
      ebind_def Let_def)

lemma regions1: "tessellation_regions kernel1 gdf1 limit1 (2/5) (1/2) = Inr
  [\<lparr>unique_id = 1, geom = Polygon [(0, 0), (4, 0), (4, 4), (0, 0)] []\<rparr>,
   \<lparr>unique_id = 1, geom = Polygon [(4, 0), (4, 4), (0, 4), (4, 0)] []\<rparr>,
   \<lparr>unique_id = 1, geom = Polygon [(0, 0), (4, 0), (4, 4), (0, 0)] []\<rparr>,
   \<lparr>unique_id = 1, geom = Polygon [(4, 0), (4, 4), (0, 4), (4, 0)] []\<rparr>,
   \<lparr>unique_id = 1, geom = Polygon [(0, 0), (4, 0), (4, 4), (0, 0)] []\<rparr>,
   \<lparr>unique_id = 2, geom = Polygon [(4, 4), (0, 4), (0, 0), (4, 4)] []\<rparr>,
   \<lparr>unique_id = 2, geom = Polygon [(4, 4), (0, 4), (0, 0), (4, 4)] []\<rparr>,
   \<lparr>unique_id = 2, geom = Polygon [(4, 4), (0, 4), (0, 0), (4, 4)] []\<rparr>,
   \<lparr>unique_id = 2, geom = Polygon [(4, 4), (0, 4), (0, 0), (4, 4)] []\<rparr>,
   \<lparr>unique_id = 2, geom = Polygon [(4, 4), (0, 4), (0, 0), (4, 4)] []\<rparr>]"
  unfolding tessellation_regions_def seeds1
  by (simp add: regions_def region_polygon_def polygon_def py_index_def kernel1_def kernel0_def
      ebind_def Let_def)

lemma run1: "tessellation kernel1 gdf1 limit1 (2/5) (1/2) False 2 = Inr cells1"
  unfolding tessellation_def regions1
  by (simp add: dissolve_def cut_def split_lines_def densify_def pair_def subselection_def
      to_cut_def sindex_build_def sindex_intersection_def boxes_intersect_def
      cut_row_def set_geometry_def kernel1_def kernel0_def limit1_def cells1_def
      ebind_def Let_def)

theorem tessellation_unique_ids_witness:
  "tessellation kernel1 gdf1 limit1 (2 / 5) (1 / 2) False 2 = Inr cells1
   \<and> distinct (map unique_id cells1)"
  using tessellation_unique_ids[OF run1] run1 by simp

section \<open>Clip resolution\<close>

lemma set_geometry_nth_same:
  "idx < length t \<Longrightarrow> set_geometry t idx g ! idx = (t ! idx)\<lparr>geom := g\<rparr>"
  by (simp add: set_geometry_def)

lemma set_geometry_nth_other:
  "j \<noteq> idx \<Longrightarrow> set_geometry t idx g ! j = t ! j"
  by (simp add: set_geometry_def)

lemma set_geometry_twice:
  "set_geometry (set_geometry t idx a) idx b = set_geometry t idx b"
  by (cases "idx < length t") (simp_all add: set_geometry_def list_update_beyond)

lemma set_geometry_same: "set_geometry t idx (geom (t ! idx)) = t"
  by (simp add: set_geometry_def)

lemma foldl_set_geometry:
  assumes "idx < length t"
  shows "foldl (\<lambda>t g. if P g then t else set_geometry t idx g) t gs
         = set_geometry t idx (foldl (\<lambda>c g. if P g then c else g) (geom (t ! idx)) gs)"
  using assms
proof (induction gs arbitrary: t)
  case Nil
  then show ?case by (simp add: set_geometry_same)
next
  case (Cons g gs)
  show ?case
  proof (cases "P g")
    case True
    with Cons show ?thesis by simp
  next
    case False
    have len: "idx < length (set_geometry t idx g)"
      using Cons.prems by (simp add: set_geometry_length)
    from False Cons.IH[OF len] Cons.prems show ?thesis
      by (simp add: set_geometry_twice set_geometry_nth_same)
  qed
qed

lemma cut_row_clipped:
  assumes "idx < length t"
  shows "cut_row k limit idx g t
         = ebind (clipped_geometry k limit g (geom (t ! idx))) (\<lambda>new. Inr (set_geometry t idx new))"
  using assms
  by (cases "k_intersection k g limit")
     (simp_all add: cut_row_def clipped_geometry_def Let_def ebind_def foldl_set_geometry
        split: sum.splits)

lemma cut_row_length:
  assumes "cut_row k limit idx g t = Inr t'"
  shows "length t' = length t"
proof -
  have "length (map unique_id t') = length (map unique_id t)"
    using cut_row_ids[OF assms] by simp
  then show ?thesis by simp
qed

lemma cut_loop_effect:
  assumes "cut_loop k limit snap sub t = Inr out" and "distinct sub"
    and "\<forall>i \<in> set sub. i < length t"
  shows "(\<forall>j. j \<notin> set sub \<longrightarrow> out ! j = t ! j)
       \<and> (\<forall>i \<in> set sub. \<exists>new. clipped_geometry k limit (geom (snap ! i)) (geom (t ! i)) = Inr new
             \<and> out ! i = (t ! i)\<lparr>geom := new\<rparr>)"
  using assms
proof (induction sub arbitrary: t)
  case Nil
  then show ?case by simp
next
  case (Cons idx rest)
  from Cons.prems(1) obtain t1 where
    row: "cut_row k limit idx (geom (snap ! idx)) t = Inr t1"
    and loop: "cut_loop k limit snap rest t1 = Inr out"
    by (auto split: sum.splits)
  have idx: "idx < length t" using Cons.prems(3) by simp
  from row cut_row_clipped[OF idx, of k limit "geom (snap ! idx)"] obtain new where
    new: "clipped_geometry k limit (geom (snap ! idx)) (geom (t ! idx)) = Inr new"
    and t1: "t1 = set_geometry t idx new"
    by (auto simp: ebind_def split: sum.splits)
  have len: "length t1 = length t" using row by (rule cut_row_length)
  have d: "distinct rest" and notin: "idx \<notin> set rest" using Cons.prems(2) by simp_all
  have bound: "\<forall>i \<in> set rest. i < length t1" using Cons.prems(3) len by simp
  note IH = Cons.IH[OF loop d bound]
  show ?case
  proof (intro conjI allI ballI impI)
    fix j assume "j \<notin> set (idx # rest)"
    then have "j \<notin> set rest" "j \<noteq> idx" by auto
    with IH t1 show "out ! j = t ! j" by (simp add: set_geometry_nth_other)
  next
    fix i assume i: "i \<in> set (idx # rest)"
    show "\<exists>new. clipped_geometry k limit (geom (snap ! i)) (geom (t ! i)) = Inr new
             \<and> out ! i = (t ! i)\<lparr>geom := new\<rparr>"
    proof (cases "i = idx")
      case True
      with IH notin have "out ! i = t1 ! idx" by simp
      with True t1 idx new show ?thesis by (simp add: set_geometry_nth_same)
    next
      case False
      with i have ir: "i \<in> set rest" by simp
      from False t1 have "t1 ! i = t ! i" by (simp add: set_geometry_nth_other)
      with IH ir show ?thesis by auto
    qed
  qed
qed

lemma drop_duplicates_subset: "set (drop_duplicates key xs) \<subseteq> set xs"
  by (induction key xs rule: drop_duplicates.induct) auto

lemma drop_duplicates_distinct: "distinct (map key (drop_duplicates key xs))"
proof (induction key xs rule: drop_duplicates.induct)
  case (1 key)
  then show ?case by simp
next
  case (2 key x xs)
  have "key x \<notin> key ` set (drop_duplicates key (filter (\<lambda>y. key y \<noteq> key x) xs))"
    using drop_duplicates_subset[of key "filter (\<lambda>y. key y \<noteq> key x) xs"] by auto
  with 2 show ?case by simp
qed

lemma sindex_intersection_bound:
  "i \<in> set (sindex_intersection (sindex_build k gs) q) \<Longrightarrow> i < length gs"
  by (auto simp: sindex_intersection_def sindex_build_def)

lemma to_cut_bound: "i \<in> set (to_cut k tess geometry_cut) \<Longrightarrow> i < length tess"
  by (auto simp: to_cut_def Let_def dest: sindex_intersection_bound)

lemma subselection_bound: "i \<in> set (subselection k tess geometry_cut) \<Longrightarrow> i < length tess"
  using drop_duplicates_subset[of "\<lambda>i. unique_id (tess ! i)" "to_cut k tess geometry_cut"]
  by (auto simp: subselection_def dest: to_cut_bound)

lemma subselection_distinct: "distinct (subselection k tess geometry_cut)"
  using drop_duplicates_distinct[of "\<lambda>i. unique_id (tess ! i)" "to_cut k tess geometry_cut"]
  by (simp add: subselection_def distinct_map)

lemma py_max_foldl:
  fixes key :: "'a \<Rightarrow> real"
  shows "foldl (\<lambda>best y. if key best < key y then y else best) x rest \<in> set (x # rest)
   \<and> (\<forall>y \<in> set (x # rest). key y \<le> key (foldl (\<lambda>best y. if key best < key y then y else best) x rest))"
proof (induction rest arbitrary: x)
  case Nil
  then show ?case by simp
next
  case (Cons a rest)
  show ?case
  proof (cases "key x < key a")
    case True
    with Cons[of a] show ?thesis by (auto intro: order_trans less_imp_le)
  next
    case False
    with Cons[of x] show ?thesis by (auto intro: order_trans)
  qed
qed

lemma py_max_greatest:
  fixes key :: "'a \<Rightarrow> real"
  assumes "py_max key xs = Inr x"
  shows "x \<in> set xs \<and> (\<forall>y \<in> set xs. key y \<le> key x)"
proof (cases xs)
  case Nil
  with assms show ?thesis by (simp add: py_max_def)
next
  case (Cons a rest)
  with assms have "x = foldl (\<lambda>best y. if key best < key y then y else best) a rest"
    by (simp add: py_max_def)
  with py_max_foldl[of key a rest] Cons show ?thesis by simp
qed

lemma last_polygon_foldl:
  "foldl (\<lambda>c g. if geom_type g \<noteq> ''Polygon'' then c else g) cur gs
   = (if filter (\<lambda>g. geom_type g = ''Polygon'') gs = [] then cur
      else last (filter (\<lambda>g. geom_type g = ''Polygon'') gs))"
  by (induction gs arbitrary: cur) simp_all

text \<open>
  Claim C2. The candidate cells of \<open>_cut\<close> are the rows of \<open>subselection\<close>. For every
  candidate cell: if its intersection with the limit is a single Polygon, that polygon is
  the cell's geometry in the result; if it is a MultiPolygon, the result holds one of its
  members, of the largest area; if it is a GeometryCollection with a Polygon among its
  members, the result holds the last such member (the other members are skipped).
\<close>

theorem cut_clip_resolution:
  assumes "cut k tess limit = Inr (out, sx)"
    and "split_lines k limit 100 = Inr geometry_cut"
    and "idx \<in> set (subselection k tess geometry_cut)"
  shows "(\<forall>sh hs. k_intersection k (geom (tess ! idx)) limit = Polygon sh hs
            \<longrightarrow> geom (out ! idx) = Polygon sh hs)
       \<and> (\<forall>ps. k_intersection k (geom (tess ! idx)) limit = MultiPolygon ps
            \<longrightarrow> (\<exists>p \<in> set ps. geom (out ! idx) = polygon_part p
                  \<and> (\<forall>q \<in> set ps. k_area k (polygon_part q) \<le> k_area k (polygon_part p))))
       \<and> (\<forall>gs. k_intersection k (geom (tess ! idx)) limit = GeometryCollection gs
            \<longrightarrow> filter (\<lambda>g. geom_type g = ''Polygon'') gs \<noteq> []
            \<longrightarrow> geom (out ! idx) = last (filter (\<lambda>g. geom_type g = ''Polygon'') gs))"
proof -
  let ?sub = "subselection k tess geometry_cut"
  from assms(1,2) have loop: "cut_loop k limit tess ?sub tess = Inr out"
    by (auto simp: cut_def ebind_def Let_def split: sum.splits)
  have "\<forall>i \<in> set ?sub. i < length tess" by (simp add: subselection_bound)
  from cut_loop_effect[OF loop subselection_distinct this] assms(3)
  obtain new where
    new: "clipped_geometry k limit (geom (tess ! idx)) (geom (tess ! idx)) = Inr new"
    and out: "out ! idx = (tess ! idx)\<lparr>geom := new\<rparr>"
    by blast
  from out have g: "geom (out ! idx) = new" by simp
  have poly: "new = Polygon sh hs"
    if "k_intersection k (geom (tess ! idx)) limit = Polygon sh hs" for sh hs
    using new that by (simp add: clipped_geometry_def)
  have coll: "new = last (filter (\<lambda>g. geom_type g = ''Polygon'') gs)"
    if "k_intersection k (geom (tess ! idx)) limit = GeometryCollection gs"
      and "filter (\<lambda>g. geom_type g = ''Polygon'') gs \<noteq> []" for gs
    using new that by (simp add: clipped_geometry_def last_polygon_foldl)
  have multi: "\<exists>p \<in> set ps. new = polygon_part p
                  \<and> (\<forall>q \<in> set ps. k_area k (polygon_part q) \<le> k_area k (polygon_part p))"
    if mp: "k_intersection k (geom (tess ! idx)) limit = MultiPolygon ps" for ps
  proof -
    let ?areas = "zip [0..<length ps] (map (\<lambda>p. k_area k (polygon_part p)) ps)"
    from new mp obtain item where
      item: "py_max snd ?areas = Inr item" and n: "new = polygon_part (ps ! fst item)"
      by (auto simp: clipped_geometry_def ebind_def split: sum.splits)
    from py_max_greatest[OF item] have mem: "item \<in> set ?areas"
      and top: "\<forall>y \<in> set ?areas. snd y \<le> snd item" by simp_all
    from mem have lt: "fst item < length ps"
      and sn: "snd item = k_area k (polygon_part (ps ! fst item))"
      by (auto simp: set_zip)
    have "k_area k (polygon_part q) \<le> k_area k (polygon_part (ps ! fst item))" if "q \<in> set ps" for q
    proof -
      from that obtain j where j: "j < length ps" "ps ! j = q" by (auto simp: in_set_conv_nth)
      then have "(j, k_area k (polygon_part q)) \<in> set ?areas"
        by (auto simp: set_zip intro!: exI[of _ j])
      with top sn show ?thesis by fastforce
    qed
    with lt n show ?thesis by (intro bexI[of _ "ps ! fst item"]) simp_all
  qed
  from poly multi coll show ?thesis unfolding g by blast
qed

lemma chords2: "split_lines kernel2 limit1 100 = Inr chords1"
  by (simp add: split_lines_def densify_def pair_def kernel2_def kernel0_def limit1_def chords1_def)

lemma sub2: "subselection kernel2 tess2 chords1 = [0, 1, 2]"
  by (simp add: subselection_def to_cut_def sindex_build_def sindex_intersection_def
      boxes_intersect_def kernel2_def kernel0_def tess2_def chords1_def
      cell_a_def cell_b_def cell_c_def)

lemma loop2: "cut_loop kernel2 limit1 tess2 [0, 1, 2] tess2 = Inr out2"
  by (simp add: cut_row_def set_geometry_def py_max_def polygon_part_def
      kernel2_def kernel0_def tess2_def out2_def ebind_def Let_def
      cell_a_def cell_b_def cell_c_def square0_def tri_small_def quad_big_def)

lemma run2: "cut kernel2 tess2 limit1 = Inr (out2, sindex_build kernel2 (map geom tess2))"
  unfolding cut_def chords2 ebind_def sum.case Let_def sub2 loop2 by simp

theorem cut_clip_resolution_witness:
  "cut kernel2 tess2 limit1 = Inr (out2, sindex_build kernel2 (map geom tess2))
   \<and> set (subselection kernel2 tess2 chords1) = {0, 1, 2}
   \<and> geom (out2 ! 0) = square0
   \<and> geom (out2 ! 1) = polygon_part quad_big
   \<and> k_area kernel2 (polygon_part tri_small) \<le> k_area kernel2 (polygon_part quad_big)
   \<and> geom (out2 ! 2) = last (filter (\<lambda>g. geom_type g = ''Polygon'')
        [polygon_part tri_small, Point (0, 0), polygon_part quad_big, LineString [(0, 0), (1, 1)]])"
proof -
  have m: "1 \<in> set (subselection kernel2 tess2 chords1)" by (simp add: sub2)
  have i: "k_intersection kernel2 (geom (tess2 ! 1)) limit1 = MultiPolygon [tri_small, quad_big, quad_big]"
    by (simp add: kernel2_def kernel0_def tess2_def cell_a_def cell_b_def)
  from cut_clip_resolution[OF run2 chords2 m] i
  have "\<exists>p \<in> set [tri_small, quad_big, quad_big]. geom (out2 ! 1) = polygon_part p
          \<and> (\<forall>q \<in> set [tri_small, quad_big, quad_big].
                k_area kernel2 (polygon_part q) \<le> k_area kernel2 (polygon_part p))"
    by simp
  then have "k_area kernel2 (polygon_part tri_small) \<le> k_area kernel2 (polygon_part quad_big)"
    by (auto simp: out2_def)
  then show ?thesis
    using run2 sub2 by (simp add: out2_def polygon_part_def)
qed

section \<open>Clipping twice\<close>

lemma drop_duplicates_inj:
  assumes "inj_on key (set xs)"
  shows "set (drop_duplicates key xs) = set xs"
  using assms
proof (induction key xs rule: drop_duplicates.induct)
  case (1 key)
  then show ?case by simp
next
  case (2 key x xs)
  let ?ys = "filter (\<lambda>y. key y \<noteq> key x) xs"
  have "inj_on key (set ?ys)"
    using "2.prems" by (auto intro: inj_on_subset)
  from "2.IH"[OF this] have s: "set (drop_duplicates key ?ys) = set ?ys" .
  have "set ?ys = set xs - {x}"
    using "2.prems" by (auto simp: inj_on_def)
  with s show ?case by auto
qed

lemma to_cut_iff:
  "i \<in> set (to_cut k tess geometry_cut) \<longleftrightarrow>
     i < length tess \<and> \<not> k_is_empty k (geom (tess ! i))
     \<and> (\<exists>poly \<in> set geometry_cut.
           boxes_intersect (k_bounds k (geom (tess ! i))) (k_bounds k poly)
           \<and> k_intersects k (geom (tess ! i)) poly)"
  by (auto simp: to_cut_def Let_def sindex_intersection_def sindex_build_def image_iff)

lemma subselection_set:
  assumes "distinct (map unique_id tess)"
  shows "set (subselection k tess geometry_cut) = set (to_cut k tess geometry_cut)"
proof -
  have "inj_on (\<lambda>i. unique_id (tess ! i)) (set (to_cut k tess geometry_cut))"
  proof (rule inj_onI)
    fix i j
    assume i: "i \<in> set (to_cut k tess geometry_cut)" and j: "j \<in> set (to_cut k tess geometry_cut)"
      and e: "unique_id (tess ! i) = unique_id (tess ! j)"
    from i j have "i < length tess" "j < length tess" by (auto dest: to_cut_bound)
    with e assms show "i = j"
      using nth_eq_iff_index_eq[of "map unique_id tess" i j] by simp
  qed
  then show ?thesis unfolding subselection_def by (rule drop_duplicates_inj)
qed

lemma cut_loop_fixed:
  assumes "\<forall>i \<in> set sub. i < length t
             \<and> clipped_geometry k limit (geom (t ! i)) (geom (t ! i)) = Inr (geom (t ! i))"
  shows "cut_loop k limit t sub t = Inr t"
  using assms
proof (induction sub)
  case Nil
  then show ?case by simp
next
  case (Cons idx rest)
  then have "cut_row k limit idx (geom (t ! idx)) t = Inr t"
    by (simp add: cut_row_clipped ebind_def set_geometry_same)
  with Cons show ?case by simp
qed

lemma clipped_geometry_fixed:
  assumes new: "clipped_geometry k limit g g = Inr new"
    and whole: "\<forall>g. k_intersection k (k_intersection k g limit) limit = k_intersection k g limit"
    and part: "\<forall>g. \<forall>x \<in> set (parts (k_intersection k g limit)). k_intersection k x limit = x"
  shows "clipped_geometry k limit new new = Inr new"
proof -
  define r where "r = k_intersection k g limit"
  consider (multi) ps where "r = MultiPolygon ps"
    | (coll) gs where "r = GeometryCollection gs"
    | (single) "\<forall>ps. r \<noteq> MultiPolygon ps" "\<forall>gs. r \<noteq> GeometryCollection gs"
    by (cases r) auto
  then show ?thesis
  proof cases
    case multi
    then have MultiPolygon: "k_intersection k g limit = MultiPolygon ps" by (simp add: r_def)
    let ?areas = "zip [0..<length ps] (map (\<lambda>p. k_area k (polygon_part p)) ps)"
    from new MultiPolygon obtain item where
      item: "py_max snd ?areas = Inr item" and n: "new = polygon_part (ps ! fst item)"
      by (auto simp: clipped_geometry_def ebind_def split: sum.splits)
    from py_max_greatest[OF item] have "fst item < length ps" by (auto simp: set_zip)
    then have "new \<in> set (parts (k_intersection k g limit))"
      using n MultiPolygon by simp
    with part have "k_intersection k new limit = new" by blast
    with n show ?thesis by (simp add: clipped_geometry_def polygon_part_def)
  next
    case coll
    then have GeometryCollection: "k_intersection k g limit = GeometryCollection gs"
      by (simp add: r_def)
    let ?polys = "filter (\<lambda>g. geom_type g = ''Polygon'') gs"
    show ?thesis
    proof (cases "?polys = []")
      case True
      with new GeometryCollection have "new = g"
        by (simp add: clipped_geometry_def last_polygon_foldl)
      with new show ?thesis by simp
    next
      case False
      with new GeometryCollection have n: "new = last ?polys"
        by (simp add: clipped_geometry_def last_polygon_foldl)
      have "last ?polys \<in> set ?polys" using False by (rule last_in_set)
      with n have "new \<in> set gs \<and> geom_type new = ''Polygon''" by auto
      then have mem: "new \<in> set gs" and ty: "geom_type new = ''Polygon''" by blast+
      from mem GeometryCollection have "new \<in> set (parts (k_intersection k g limit))" by simp
      with part have i: "k_intersection k new limit = new" by blast
      from ty obtain sh hs where "new = Polygon sh hs" by (cases new) simp_all
      with i show ?thesis by (simp add: clipped_geometry_def)
    qed
  next
    case single
    from new single have n: "new = r"
      unfolding r_def by (cases "k_intersection k g limit") (auto simp: clipped_geometry_def)
    from whole have "k_intersection k r limit = r" by (simp add: r_def)
    with single n show ?thesis
      by (cases r) (auto simp: clipped_geometry_def)
  qed
qed

text \<open>
  Claim C9. Clipping a clipped table again with the same limit changes nothing. The
  tolerance of the claim is idealised away: the kernel's intersection is taken to be
  exact, which the two hypotheses on the kernel state (intersecting with the limit a
  second time gives the same geometry, and every part of an intersection with the limit
  is unchanged by intersecting it with the limit). The ids of the table are distinct, as
  they are in the table \<open>tessellation\<close> passes to \<open>_cut\<close>.
\<close>

theorem cut_idempotent:
  assumes run: "cut k tess limit = Inr (clipped, sx)"
    and ids: "distinct (map unique_id tess)"
    and whole: "\<forall>g. k_intersection k (k_intersection k g limit) limit = k_intersection k g limit"
    and part: "\<forall>g. \<forall>x \<in> set (parts (k_intersection k g limit)). k_intersection k x limit = x"
  shows "\<exists>sx'. cut k clipped limit = Inr (clipped, sx')"
proof -
  from run obtain geometry_cut where
    chords: "split_lines k limit 100 = Inr geometry_cut"
    and loop: "cut_loop k limit tess (subselection k tess geometry_cut) tess = Inr clipped"
    by (auto simp: cut_def ebind_def Let_def split: sum.splits)
  let ?sub1 = "subselection k tess geometry_cut"
  let ?sub2 = "subselection k clipped geometry_cut"
  have bound1: "\<forall>i \<in> set ?sub1. i < length tess" by (simp add: subselection_bound)
  note eff = cut_loop_effect[OF loop subselection_distinct bound1]
  have len: "length clipped = length tess"
    using cut_loop_ids[OF loop] by (metis length_map)
  have ids2: "distinct (map unique_id clipped)"
    using cut_loop_ids[OF loop] ids by simp
  have fixed: "i < length clipped
      \<and> clipped_geometry k limit (geom (clipped ! i)) (geom (clipped ! i)) = Inr (geom (clipped ! i))"
    if i2: "i \<in> set ?sub2" for i
  proof -
    from i2 have ilen: "i < length clipped" by (rule subselection_bound)
    have "i \<in> set ?sub1"
    proof (rule ccontr)
      assume notin: "i \<notin> set ?sub1"
      with eff have same: "clipped ! i = tess ! i" by blast
      from i2 have "i \<in> set (to_cut k clipped geometry_cut)"
        by (simp add: subselection_set[OF ids2])
      with same len have "i \<in> set (to_cut k tess geometry_cut)"
        by (simp add: to_cut_iff)
      with notin show False by (simp add: subselection_set[OF ids])
    qed
    with eff obtain new where
      new: "clipped_geometry k limit (geom (tess ! i)) (geom (tess ! i)) = Inr new"
      and c: "clipped ! i = (tess ! i)\<lparr>geom := new\<rparr>"
      by blast
    from c have "geom (clipped ! i) = new" by simp
    with clipped_geometry_fixed[OF new whole part] ilen show ?thesis by simp
  qed
  then have "cut_loop k limit clipped ?sub2 clipped = Inr clipped"
    by (intro cut_loop_fixed) blast
  with chords show ?thesis by (simp add: cut_def ebind_def Let_def)
qed

lemma sub9: "subselection kernel9 tess9 chords1 = [0, 1, 2]"
  by (simp add: subselection_def to_cut_def sindex_build_def sindex_intersection_def
      boxes_intersect_def kernel9_def kernel0_def tess9_def chords1_def square0_def)

lemma chords9: "split_lines kernel9 limit1 100 = Inr chords1"
  by (simp add: split_lines_def densify_def pair_def kernel9_def kernel0_def limit1_def chords1_def)

lemma loop9: "cut_loop kernel9 limit1 tess9 [0, 1, 2] tess9 = Inr out9"
  by (simp add: cut_row_def set_geometry_def py_max_def polygon_part_def
      kernel9_def kernel0_def tess9_def out9_def ebind_def Let_def
      square0_def tri_small_def quad_big_def)

lemma run9: "cut kernel9 tess9 limit1 = Inr (out9, sindex_build kernel9 (map geom tess9))"
  unfolding cut_def chords9 ebind_def sum.case Let_def sub9 loop9 by simp

theorem cut_idempotent_witness:
  "cut kernel9 tess9 limit1 = Inr (out9, sindex_build kernel9 (map geom tess9))
   \<and> out9 \<noteq> tess9
   \<and> (\<exists>sx'. cut kernel9 out9 limit1 = Inr (out9, sx'))"
proof -
  have ids: "distinct (map unique_id tess9)" by (simp add: tess9_def)
  have whole: "\<forall>g. k_intersection kernel9 (k_intersection kernel9 g limit1) limit1
                   = k_intersection kernel9 g limit1"
    by (simp add: kernel9_def)
  have part: "\<forall>g. \<forall>x \<in> set (parts (k_intersection kernel9 g limit1)).
                   k_intersection kernel9 x limit1 = x"
    by (simp add: kernel9_def)
  have "out9 \<noteq> tess9" by (simp add: out9_def tess9_def polygon_part_def)
  with cut_idempotent[OF run9 ids whole part] run9 show ?thesis by simp
qed

section \<open>Street snapping: the building veto\<close>

lemma commit_extension_cases:
  assumes "commit_extension k buildings bindex idx network l = Inr network'"
  shows "network' = network \<or> network' = set_edge_geometry network idx (LineString l)"
  using assms
  by (auto simp: commit_extension_def ebind_def Let_def split: sum.splits if_splits)

lemma commit_extension_veto:
  assumes "commit_extension k buildings bindex idx network l = Inr network'"
    and "p \<in> set (sindex_intersection bindex (k_bounds k (LineString l)))"
    and "\<not> k_is_empty k (k_intersection k (geom (buildings ! p)) (LineString l))"
  shows "network' = network"
proof -
  from assms(1) obtain pbs where
    pbs: "iloc buildings (sindex_intersection bindex (k_bounds k (LineString l))) = Inr pbs"
    by (auto simp: commit_extension_def ebind_def Let_def split: sum.splits)
  then have "pbs = map (\<lambda>p. buildings ! p) (sindex_intersection bindex (k_bounds k (LineString l)))"
    by (auto simp: iloc_def split: if_splits)
  with assms(2) have "buildings ! p \<in> set pbs" by auto
  with assms(3) have "any_geometry k (map (\<lambda>b. k_intersection k (geom b) (LineString l)) pbs)"
    by (auto simp: any_geometry_def list_ex_iff)
  with assms(1) pbs show ?thesis
    by (simp add: commit_extension_def ebind_def Let_def)
qed

lemma extend_line_cases:
  assumes "extend_line k sindex buildings bindex tolerance idx (network, l) = Inr (ret, network', l')"
  shows "(network' = network \<and> l' = l)
       \<or> (ret = ReturnsNone \<and> (\<exists>p. l' = l @ [p]
            \<and> commit_extension k buildings bindex idx network l' = Inr network'))"
  using assms
  by (auto simp: extend_line_def ebind_def Let_def
      split: sum.splits option.splits prod.splits if_splits)

lemma extend_line_edge_cases:
  assumes "extend_line_edge k geometry_opt buildings bindex tolerance idx (network, l) = Inr (ret, network', l')"
  shows "(network' = network \<and> l' = l)
       \<or> (\<exists>p. l' = l @ [p] \<and> commit_extension k buildings bindex idx network l' = Inr network')"
  using assms
  by (auto simp: extend_line_edge_def ebind_def Let_def
      split: sum.splits option.splits prod.splits if_splits geometry.splits)


lemma sindex_candidate:
  assumes "i < length gs" and "\<not> k_is_empty k (gs ! i)"
    and "boxes_intersect (k_bounds k (gs ! i)) q"
  shows "i \<in> set (sindex_intersection (sindex_build k gs) q)"
  using assms by (auto simp: sindex_intersection_def sindex_build_def image_iff)

text \<open>
  Claim C5. When \<open>extend_line\<close> has computed an extension (it appended a coordinate to
  \<open>l_coords\<close>) and the extended line crosses a building footprint, the street table is
  left as it was: the extension is not assigned to the edge. The test reads the buildings
  the index over the building table proposes; that the index proposes every building
  the line crosses is the R-tree's contract, stated as the last hypothesis (geometries
  with a non-empty intersection are non-empty and have intersecting bounding boxes).
\<close>

theorem extend_line_building_veto:
  assumes run: "extend_line k sindex buildings (sindex_build k (map geom buildings)) tolerance idx
                  (network, l_coords) = Inr (ret, network', l_coords')"
    and extended: "l_coords' \<noteq> l_coords"
    and crosses: "\<exists>b \<in> set buildings. \<not> k_is_empty k (k_intersection k (geom b) (LineString l_coords'))"
    and rtree: "\<forall>g h. \<not> k_is_empty k (k_intersection k g h)
                  \<longrightarrow> \<not> k_is_empty k g \<and> boxes_intersect (k_bounds k g) (k_bounds k h)"
  shows "network' = network \<and> (\<exists>p. l_coords' = l_coords @ [p])"
proof -
  let ?bindex = "sindex_build k (map geom buildings)"
  from extend_line_cases[OF run] extended obtain p where
    app: "l_coords' = l_coords @ [p]"
    and commit: "commit_extension k buildings ?bindex idx network l_coords' = Inr network'"
    by auto
  from crosses obtain i where i: "i < length buildings"
    and ne: "\<not> k_is_empty k (k_intersection k (geom (buildings ! i)) (LineString l_coords'))"
    by (auto simp: in_set_conv_nth)
  from rtree ne have "\<not> k_is_empty k (geom (buildings ! i))"
    and "boxes_intersect (k_bounds k (geom (buildings ! i))) (k_bounds k (LineString l_coords'))"
    by blast+
  with i have "i \<in> set (sindex_intersection ?bindex (k_bounds k (LineString l_coords')))"
    using sindex_candidate[of i "map geom buildings" k "k_bounds k (LineString l_coords')"]
    by simp
  from commit_extension_veto[OF commit this ne] app show ?thesis by blast
qed


text \<open>The concrete street table of the examples, evaluated.\<close>

lemma kernel_s_fields:
  "k_bounds kernel_s g = (0, 0, 0, 0)"
  "k_is_empty kernel_s g = (g = GeometryCollection [])"
  "k_distance kernel_s a b = \<bar>fst a - fst b\<bar> + \<bar>snd a - snd b\<bar>"
  "k_intersects kernel_s g h = (h = Point (0, 0))"
  "k_unary_union kernel_s gs = limit1"
  "k_boundary kernel_s g = boundary0 g"
  "k_intersection kernel_s g h =
     (if g = zigzag then MultiPoint [(18, 0), (15, 0), (12, 0)]
      else if g = building_s then Point (11, 0)
      else GeometryCollection [])"
  by (simp_all add: kernel_s_def kernel0_def)

lemma sindex_s_query: "sindex_intersection sindex_s (0, 0, 0, 0) = [0, 1]"
  by (simp add: sindex_s_def sindex_intersection_def sindex_build_def boxes_intersect_def
      kernel_s_fields net_s_def zigzag_def)

lemma bindex_s_query: "sindex_intersection bindex_s (0, 0, 0, 0) = [0]"
  by (simp add: bindex_s_def sindex_intersection_def sindex_build_def boxes_intersect_def
      kernel_s_fields buildings_s_def building_s_def)

lemma bindex_empty: "sindex_build kernel_s (map geom ([] :: feature list)) = []"
  by (simp add: sindex_build_def)

lemma sindex_intersection_empty: "sindex_intersection [] q = []"
  by (simp add: sindex_intersection_def)

lemma extra_s: "extra_of kernel_s [(0, 0), (10, 0)] = Inr (Some ((0, 0), (10, 0)))"
  by (simp add: extra_of_def kernel_s_fields Let_def)

lemma ray_s: "\<exists>b. getExtrapoledLine (0, 0) (10, 0) 10 = Inr (LineString [(10, 0), b])"
  by (simp add: getExtrapoledLine_def Let_def)

lemma new_point_s: "new_point kernel_s [(18, 0), (15, 0)] (10, 0) = Inr (15, 0)"
  by (simp add: new_point_def py_min_def kernel_s_fields ebind_def Let_def)

lemma extend_line_s:
  "extend_line kernel_s sindex_s ([] :: feature list) [] 10 7
     (net_s, [(0, 0), (10, 0)])
   = Inr (ReturnsNone, net_s', [(0, 0), (10, 0), (15, 0)])"
proof -
  obtain b where ray: "getExtrapoledLine (0, 0) (10, 0) 10 = Inr (LineString [(10, 0), b])"
    using ray_s by blast
  show ?thesis
    unfolding extend_line_def extra_s prod.case ebind_def sum.case option.case ray
    by (simp add: sindex_s_query sindex_intersection_empty iloc_def
        drop_label_def any_geometry_def point_members_def py_index_def new_point_s
        commit_extension_def set_edge_geometry_def kernel_s_fields
        net_s_def net_s'_def zigzag_def building_s_def ebind_def Let_def)
qed

lemma extend_line_veto_s:
  "extend_line kernel_s sindex_s buildings_s bindex_s 10 7
     (net_s, [(0, 0), (10, 0)])
   = Inr (ReturnsNone, net_s, [(0, 0), (10, 0), (15, 0)])"
proof -
  obtain b where ray: "getExtrapoledLine (0, 0) (10, 0) 10 = Inr (LineString [(10, 0), b])"
    using ray_s by blast
  show ?thesis
    unfolding extend_line_def extra_s prod.case ebind_def sum.case option.case ray
    by (simp add: sindex_s_query bindex_s_query iloc_def
        drop_label_def any_geometry_def point_members_def py_index_def new_point_s
        commit_extension_def set_edge_geometry_def kernel_s_fields
        net_s_def buildings_s_def zigzag_def building_s_def ebind_def Let_def)
qed

theorem extend_line_building_veto_witness:
  "extend_line kernel_s (sindex_build kernel_s (map edge_geom net_s)) buildings_s
     (sindex_build kernel_s (map geom buildings_s)) 10 7 (net_s, [(0, 0), (10, 0)])
   = Inr (ReturnsNone, net_s, [(0, 0), (10, 0), (15, 0)])
   \<and> \<not> k_is_empty kernel_s
         (k_intersection kernel_s building_s (LineString [(0, 0), (10, 0), (15, 0)]))"
proof -
  have run: "extend_line kernel_s (sindex_build kernel_s (map edge_geom net_s)) buildings_s
     (sindex_build kernel_s (map geom buildings_s)) 10 7 (net_s, [(0, 0), (10, 0)])
   = Inr (ReturnsNone, net_s, [(0, 0), (10, 0), (15, 0)])"
    unfolding sindex_s_def[symmetric] bindex_s_def[symmetric] by (rule extend_line_veto_s)
  have ext: "[(0, 0), (10, 0), (15, 0)] \<noteq> [(0 :: real, 0 :: real), (10, 0)]" by simp
  have ne: "\<not> k_is_empty kernel_s
         (k_intersection kernel_s building_s (LineString [(0, 0), (10, 0), (15, 0)]))"
    by (simp add: kernel_s_fields building_s_def zigzag_def)
  then have crosses: "\<exists>b \<in> set buildings_s. \<not> k_is_empty kernel_s
         (k_intersection kernel_s (geom b) (LineString [(0, 0), (10, 0), (15, 0)]))"
    by (simp add: buildings_s_def)
  have rtree: "\<forall>g h. \<not> k_is_empty kernel_s (k_intersection kernel_s g h)
       \<longrightarrow> \<not> k_is_empty kernel_s g \<and> boxes_intersect (k_bounds kernel_s g) (k_bounds kernel_s h)"
    by (auto simp: kernel_s_fields boxes_intersect_def zigzag_def building_s_def)
  from extend_line_building_veto[OF run ext crosses rtree] run ne show ?thesis by simp
qed

section \<open>Street snapping: the nearest intersection point\<close>

text \<open>
  What the code does with the candidates it has collected in \<open>true_int\<close>: the new
  coordinate is the first of the candidates at the least distance to the end point.
\<close>

lemma py_min_foldl_first:
  fixes key :: "'a \<Rightarrow> real"
  assumes "\<forall>y \<in> set pre0. key x < key y" and "\<forall>y \<in> set mid0. key x \<le> key y"
  shows "\<exists>pre post. pre0 @ x # mid0 @ rest
            = pre @ foldl (\<lambda>best y. if key y < key best then y else best) x rest # post
          \<and> (\<forall>y \<in> set pre. key (foldl (\<lambda>best y. if key y < key best then y else best) x rest) < key y)
          \<and> (\<forall>y \<in> set post. key (foldl (\<lambda>best y. if key y < key best then y else best) x rest) \<le> key y)"
  using assms
proof (induction rest arbitrary: x pre0 mid0)
  case Nil
  then show ?case by (intro exI[of _ pre0] exI[of _ mid0]) simp
next
  case (Cons a rest)
  show ?case
  proof (cases "key a < key x")
    case True
    have 1: "\<forall>y \<in> set (pre0 @ x # mid0). key a < key y"
      using True Cons.prems by (auto intro: less_trans less_le_trans)
    have 2: "\<forall>y \<in> set ([] :: 'a list). key a \<le> key y" by simp
    from Cons.IH[OF 1 2] True show ?thesis by simp
  next
    case False
    have 2: "\<forall>y \<in> set (mid0 @ [a]). key x \<le> key y"
      using False Cons.prems by auto
    from Cons.IH[OF Cons.prems(1) 2] False show ?thesis by simp
  qed
qed

lemma py_min_first:
  fixes key :: "'a \<Rightarrow> real"
  assumes "py_min key xs = Inr x"
  shows "\<exists>pre post. xs = pre @ x # post
          \<and> (\<forall>y \<in> set pre. key x < key y) \<and> (\<forall>y \<in> set post. key x \<le> key y)"
proof (cases xs)
  case Nil
  with assms show ?thesis by (simp add: py_min_def)
next
  case (Cons a rest)
  with assms have x: "x = foldl (\<lambda>best y. if key y < key best then y else best) a rest"
    by (simp add: py_min_def)
  from py_min_foldl_first[of "[]" key a "[]" rest] Cons show ?thesis
    unfolding x by simp
qed

lemma new_point_nearest_first:
  assumes "new_point k true_int end_point = Inr p" and "true_int \<noteq> []"
  shows "\<exists>i < length true_int. p = true_int ! i
          \<and> (\<forall>j < length true_int. k_distance k p end_point \<le> k_distance k (true_int ! j) end_point)
          \<and> (\<forall>j < i. k_distance k p end_point < k_distance k (true_int ! j) end_point)"
proof (cases "1 < length true_int")
  case False
  with assms(2) have len: "length true_int = 1" by (cases true_int) auto
  with assms(1) have "p = true_int ! 0"
    by (simp add: new_point_def py_index_def)
  with len show ?thesis by (intro exI[of _ 0]) simp
next
  case True
  let ?d = "\<lambda>q. k_distance k q end_point"
  let ?items = "zip [0..<length true_int] (map ?d true_int)"
  from assms(1) True obtain item where
    item: "py_min snd ?items = Inr item" and p: "p = true_int ! fst item"
    by (auto simp: new_point_def Let_def ebind_def split: sum.splits)
  from py_min_first[OF item] obtain pre post where
    split: "?items = pre @ item # post"
    and pre: "\<forall>y \<in> set pre. snd item < snd y" and post: "\<forall>y \<in> set post. snd item \<le> snd y"
    by blast
  have nth: "?items ! j = (j, ?d (true_int ! j))" if "j < length true_int" for j
    using that by simp
  have len: "length ?items = length true_int" by simp
  have total: "length true_int = length pre + Suc (length post)"
  proof -
    have "length ?items = length (pre @ item # post)" by (simp only: split)
    then show ?thesis by simp
  qed
  have ipos: "length pre < length true_int" using total by simp
  have "item = ?items ! length pre" using split by simp
  with nth[OF ipos] have it: "item = (length pre, ?d (true_int ! length pre))" by simp
  then have fi: "fst item = length pre" and si: "snd item = ?d p" using p by simp_all
  have before: "?d p < ?d (true_int ! j)" if "j < length pre" for j
  proof -
    from that have "pre ! j = ?items ! j" using split by (simp add: nth_append)
    with nth[of j] that ipos have "pre ! j = (j, ?d (true_int ! j))" by simp
    moreover have "pre ! j \<in> set pre" using that by simp
    ultimately show ?thesis using pre si by fastforce
  qed
  have all: "?d p \<le> ?d (true_int ! j)" if j: "j < length true_int" for j
  proof -
    consider "j < length pre" | "j = length pre" | "length pre < j" by linarith
    then show ?thesis
    proof cases
      case 1 then show ?thesis using before by (simp add: less_imp_le)
    next
      case 2 then show ?thesis using p fi by simp
    next
      case 3
      then have "?items ! j = post ! (j - length pre - 1)"
        using split by (simp add: nth_append)
      moreover have "j - length pre - 1 < length post"
        using 3 j total by simp
      ultimately have "?items ! j \<in> set post" by simp
      with nth[OF j] post si show ?thesis by fastforce
    qed
  qed
  from ipos p fi before all show ?thesis by (intro exI[of _ "length pre"]) simp
qed

text \<open>
  Claim C6, evaluated at a failing input. The ray from the free end \<open>(10, 0)\<close> of edge 7
  meets edge 9 in the MultiPoint \<open>(18 0, 15 0, 12 0)\<close>. \<open>extend_line\<close> reads the
  members \<open>[0]\<close> and \<open>[1]\<close> only and appends \<open>(15, 0)\<close>, although the intersection
  point \<open>(12, 0)\<close> is nearer to the end point.
\<close>

theorem extend_line_ignores_third_point:
  "extend_line kernel_s (sindex_build kernel_s (map edge_geom net_s)) ([] :: feature list)
     (sindex_build kernel_s []) 10 7 (net_s, [(0, 0), (10, 0)])
   = Inr (ReturnsNone, net_s', [(0, 0), (10, 0), (15, 0)])
   \<and> (case getExtrapoledLine (0, 0) (10, 0) 10 of
         Inl e \<Rightarrow> False
       | Inr ray \<Rightarrow> k_intersection kernel_s (edge_geom (net_s ! 1)) ray
                     = MultiPoint [(18, 0), (15, 0), (12, 0)])
   \<and> k_distance kernel_s (12, 0) (10, 0) < k_distance kernel_s (15, 0) (10, 0)"
proof -
  obtain b where ray: "getExtrapoledLine (0, 0) (10, 0) 10 = Inr (LineString [(10, 0), b])"
    using ray_s by blast
  have e: "sindex_build kernel_s [] = []" by (simp add: sindex_build_def)
  show ?thesis
    unfolding sindex_s_def[symmetric] e ray sum.case extend_line_s
    by (simp add: kernel_s_fields net_s_def)
qed

section \<open>Street snapping: the frame of \<open>snap_street_network_edge\<close>\<close>

lemma set_edge_geometry_twice:
  "set_edge_geometry (set_edge_geometry network idx a) idx b = set_edge_geometry network idx b"
  by (induction network) (simp_all add: set_edge_geometry_def)

lemma extend_end_cases:
  assumes "extend_end k sindex geometry_opt buildings bindex ts te idx (network, l) = Inr (network', l')"
  shows "(l' = l \<or> (\<exists>p. l' = l @ [p]))
       \<and> (network' = network \<or> network' = set_edge_geometry network idx (LineString l'))"
proof -
  from assms obtain ret n1 l1 where
    first: "extend_line k sindex buildings bindex ts idx (network, l) = Inr (ret, n1, l1)"
    and rest: "(if ret = ReturnsFalse
                then ebind (extend_line_edge k geometry_opt buildings bindex te idx (n1, l1))
                       (\<lambda>(ret2, state2). Inr state2)
                else Inr (n1, l1)) = Inr (network', l')"
    by (auto simp: extend_end_def ebind_def split: sum.splits prod.splits)
  show ?thesis
  proof (cases "ret = ReturnsFalse")
    case True
    with extend_line_cases[OF first] have same: "n1 = network" "l1 = l" by auto
    from rest True same obtain ret2 where
      "extend_line_edge k geometry_opt buildings bindex te idx (network, l) = Inr (ret2, network', l')"
      by (auto simp: ebind_def split: sum.splits prod.splits)
    from extend_line_edge_cases[OF this] show ?thesis
      by (auto dest: commit_extension_cases)
  next
    case False
    with rest have "n1 = network'" "l1 = l'" by simp_all
    with extend_line_cases[OF first] show ?thesis
      by (auto dest: commit_extension_cases)
  qed
qed

lemma snap_row_cases:
  assumes "snap_row k sindex geometry_opt buildings bindex ts te idx line_geom network = Inr network'"
  shows "network' = network
       \<or> (\<exists>c pre post. coords line_geom = Inr c \<and> length pre \<le> 1 \<and> length post \<le> 1
            \<and> (network' = set_edge_geometry network idx (LineString (pre @ c @ post))
               \<or> network' = set_edge_geometry network idx (LineString (pre @ rev c @ post))))"
proof -
  from assms obtain c where c: "coords line_geom = Inr c"
    by (auto simp: snap_row_def ebind_def split: sum.splits)
  let ?E = "extend_end k sindex geometry_opt buildings bindex ts te idx"
  let ?goal = "\<lambda>n. n = network
       \<or> (\<exists>pre post. length pre \<le> 1 \<and> length post \<le> 1
            \<and> (n = set_edge_geometry network idx (LineString (pre @ c @ post))
               \<or> n = set_edge_geometry network idx (LineString (pre @ rev c @ post))))"
  have one: "?goal n" if "?E (network, c) = Inr (n, l)" for n l
  proof -
    from extend_end_cases[OF that] consider "n = network"
      | "n = set_edge_geometry network idx (LineString c)"
      | p where "n = set_edge_geometry network idx (LineString (c @ [p]))"
      by auto
    then show ?thesis
    proof cases
      case 1 then show ?thesis by simp
    next
      case 2
      then have "n = set_edge_geometry network idx (LineString ([] @ c @ []))" by simp
      then show ?thesis by (intro disjI2 exI[of _ "[]"]) auto
    next
      case 3
      then have "n = set_edge_geometry network idx (LineString ([] @ c @ [p]))" by simp
      then show ?thesis by (intro disjI2 exI[of _ "[]"] exI[of _ "[p]"]) auto
    qed
  qed
  have onerev: "?goal n" if "?E (network, rev c) = Inr (n, l)" for n l
  proof -
    from extend_end_cases[OF that] consider "n = network"
      | "n = set_edge_geometry network idx (LineString (rev c))"
      | p where "n = set_edge_geometry network idx (LineString (rev c @ [p]))"
      by auto
    then show ?thesis
    proof cases
      case 1 then show ?thesis by simp
    next
      case 2
      then have "n = set_edge_geometry network idx (LineString ([] @ rev c @ []))" by simp
      then show ?thesis by (intro disjI2 exI[of _ "[]"]) auto
    next
      case 3
      then have "n = set_edge_geometry network idx (LineString ([] @ rev c @ [p]))" by simp
      then show ?thesis by (intro disjI2 exI[of _ "[]"] exI[of _ "[p]"]) auto
    qed
  qed
  have two: "?goal n2"
    if a: "?E (network, c) = Inr (n1, l1)" and b: "?E (n1, rev l1) = Inr (n2, l2)" for n1 l1 n2 l2
  proof -
    from extend_end_cases[OF a] have l1: "l1 = c \<or> (\<exists>p. l1 = c @ [p])"
      and n1: "n1 = network \<or> n1 = set_edge_geometry network idx (LineString l1)" by auto
    from extend_end_cases[OF b] have l2: "l2 = rev l1 \<or> (\<exists>q. l2 = rev l1 @ [q])"
      and n2: "n2 = n1 \<or> n2 = set_edge_geometry n1 idx (LineString l2)" by auto
    from l1 obtain post where post: "l1 = [] @ c @ post" "length post \<le> 1" by auto
    from l2 post obtain post' where post': "l2 = rev post @ rev c @ post'" "length post' \<le> 1"
      by auto
    from n1 n2 consider "n2 = network"
      | "n2 = set_edge_geometry network idx (LineString l1)"
      | "n2 = set_edge_geometry network idx (LineString l2)"
      by (auto simp: set_edge_geometry_twice)
    then show ?thesis
    proof cases
      case 1 then show ?thesis by simp
    next
      case 2
      with post show ?thesis by (intro disjI2 exI[of _ "[]"] exI[of _ post]) auto
    next
      case 3
      with post post' show ?thesis by (intro disjI2 exI[of _ "rev post"] exI[of _ post']) auto
    qed
  qed
  from assms c obtain first second where
    body: "(if first \<and> second then Inr network
            else if first \<and> \<not> second then
              ebind (?E (network, c)) (\<lambda>(network, l_coords). Inr network)
            else if \<not> first \<and> second then
              ebind (?E (network, rev c)) (\<lambda>(network, l_coords). Inr network)
            else
              ebind (?E (network, c)) (\<lambda>(network, l_coords).
              ebind (?E (network, rev l_coords)) (\<lambda>(network, l_coords). Inr network)))
           = Inr network'"
    by (auto simp: snap_row_def ebind_def split: sum.splits if_splits)
  have "?goal network'"
  proof (cases first; cases second)
    assume "first" "second"
    with body show ?thesis by simp
  next
    assume "first" "\<not> second"
    with body obtain l where "?E (network, c) = Inr (network', l)"
      by (auto simp: ebind_def split: sum.splits prod.splits)
    then show ?thesis by (rule one)
  next
    assume "\<not> first" "second"
    with body obtain l where "?E (network, rev c) = Inr (network', l)"
      by (auto simp: ebind_def split: sum.splits prod.splits)
    then show ?thesis by (rule onerev)
  next
    assume "\<not> first" "\<not> second"
    with body obtain n1 l1 l2 where "?E (network, c) = Inr (n1, l1)"
      and "?E (n1, rev l1) = Inr (network', l2)"
      by (auto simp: ebind_def split: sum.splits prod.splits)
    then show ?thesis by (rule two)
  qed
  with c show ?thesis by auto
qed


lemma frame_inv_refl: "frame_inv net0 net0"
  by (simp add: frame_inv_def)

lemma frame_inv_step:
  assumes inv: "frame_inv net0 net" and dist: "distinct (map index net0)"
    and j: "j < length net0" and idx: "idx = index (net0 ! j)"
    and c: "coords (edge_geom (net0 ! j)) = Inr c"
    and pre: "length pre \<le> 1" and post: "length post \<le> 1"
    and l: "l = pre @ c @ post \<or> l = pre @ rev c @ post"
  shows "frame_inv net0 (set_edge_geometry net idx (LineString l))"
proof -
  let ?net' = "set_edge_geometry net idx (LineString l)"
  from inv have len: "length net = length net0" by (simp add: frame_inv_def)
  have hit: "index (net ! i) = idx \<longleftrightarrow> i = j" if "i < length net0" for i
  proof -
    from inv that have "index (net ! i) = index (net0 ! i)" by (simp add: frame_inv_def)
    with that j idx dist show ?thesis
      using nth_eq_iff_index_eq[of "map index net0" i j] by auto
  qed
  have nth: "?net' ! i = (if i = j then (net ! i)\<lparr>edge_geom := LineString l\<rparr> else net ! i)"
    if "i < length net0" for i
    using that len hit[OF that] by (simp add: set_edge_geometry_def)
  show ?thesis
    unfolding frame_inv_def
  proof (intro conjI allI impI)
    show "length ?net' = length net0" using len by (simp add: set_edge_geometry_def)
  next
    fix i assume i: "i < length net0"
    with inv show "index (?net' ! i) = index (net0 ! i)"
      by (simp add: nth frame_inv_def)
  next
    fix i assume i: "i < length net0"
    with inv show "edge.more (?net' ! i) = edge.more (net0 ! i)"
      by (simp add: nth frame_inv_def)
  next
    fix i assume i: "i < length net0"
    show "edge_geom (?net' ! i) = edge_geom (net0 ! i)
           \<or> (\<exists>c pre post. coords (edge_geom (net0 ! i)) = Inr c
                \<and> length pre \<le> 1 \<and> length post \<le> 1
                \<and> (edge_geom (?net' ! i) = LineString (pre @ c @ post)
                   \<or> edge_geom (?net' ! i) = LineString (pre @ rev c @ post)))"
    proof (cases "i = j")
      case True
      with i have "edge_geom (?net' ! i) = LineString l" by (simp add: nth)
      with True c pre post l show ?thesis by blast
    next
      case False
      with i have "?net' ! i = net ! i" by (simp add: nth)
      with inv i show ?thesis by (simp add: frame_inv_def)
    qed
  qed
qed

lemma snap_loop_frame:
  assumes run: "snap_loop k sindex geometry_opt buildings bindex ts te todo network = Inr network'"
    and dist: "distinct (map index net0)"
    and todo: "\<forall>r \<in> set todo. \<exists>j < length net0. fst r = index (net0 ! j) \<and> snd r = edge_geom (net0 ! j)"
    and inv: "frame_inv net0 network"
  shows "frame_inv net0 network'"
  using run todo inv
proof (induction todo arbitrary: network)
  case Nil
  then show ?case by simp
next
  case (Cons r todo)
  obtain idx line_geom where r: "r = (idx, line_geom)" by (cases r)
  from Cons.prems(1) r obtain n1 where
    row: "snap_row k sindex geometry_opt buildings bindex ts te idx line_geom network = Inr n1"
    and rest: "snap_loop k sindex geometry_opt buildings bindex ts te todo n1 = Inr network'"
    by (auto split: sum.splits)
  from Cons.prems(2) r obtain j where j: "j < length net0" "idx = index (net0 ! j)"
    "line_geom = edge_geom (net0 ! j)" by auto
  have "frame_inv net0 n1"
  proof -
    from snap_row_cases[OF row] consider "n1 = network"
      | c pre post where "coords line_geom = Inr c" "length pre \<le> 1" "length post \<le> 1"
          "n1 = set_edge_geometry network idx (LineString (pre @ c @ post))
           \<or> n1 = set_edge_geometry network idx (LineString (pre @ rev c @ post))"
      by blast
    then show ?thesis
    proof cases
      case 1
      with Cons.prems(3) show ?thesis by simp
    next
      case 2
      from 2(4) show ?thesis
      proof
        assume n: "n1 = set_edge_geometry network idx (LineString (pre @ c @ post))"
        show ?thesis unfolding n
          using Cons.prems(3) dist j(1,2) 2(1)[unfolded j(3)] 2(2,3)
          by (rule frame_inv_step) simp
      next
        assume n: "n1 = set_edge_geometry network idx (LineString (pre @ rev c @ post))"
        show ?thesis unfolding n
          using Cons.prems(3) dist j(1,2) 2(1)[unfolded j(3)] 2(2,3)
          by (rule frame_inv_step) simp
      qed
    qed
  qed
  from Cons.IH[OF rest _ this] Cons.prems(2) show ?case by simp
qed

text \<open>
  Claim C10. \<open>snap_street_network_edge\<close> leaves the table at the address \<open>edges\<close> as it
  was, whether it returns or raises. The table it returns is a new one, with the rows
  of the input in the same order, with the same index labels and the same other
  columns; the geometry of a row is the input's, or a LineString whose coordinates are
  the input's coordinates, possibly reversed, with at most one coordinate added at each
  end. The index labels of the input are distinct.
\<close>

theorem snap_street_network_edge_frame:
  assumes ref: "edges < length store" and dist: "distinct (map index (store ! edges))"
    and run: "snap_street_network_edge k store edges buildings tessellation_gdf ts te = (store', result)"
  shows "store' ! edges = store ! edges
       \<and> (\<forall>network. result = Inr network \<longrightarrow>
            network \<noteq> edges \<and> network < length store'
          \<and> length (store' ! network) = length (store ! edges)
          \<and> (\<forall>j < length (store ! edges).
               index (store' ! network ! j) = index (store ! edges ! j)
             \<and> edge.more (store' ! network ! j) = edge.more (store ! edges ! j)
             \<and> (edge_geom (store' ! network ! j) = edge_geom (store ! edges ! j)
                \<or> (\<exists>c pre post. coords (edge_geom (store ! edges ! j)) = Inr c
                     \<and> length pre \<le> 1 \<and> length post \<le> 1
                     \<and> (edge_geom (store' ! network ! j) = LineString (pre @ c @ post)
                        \<or> edge_geom (store' ! network ! j) = LineString (pre @ rev c @ post))))))"
proof -
  let ?net0 = "store ! edges"
  let ?store1 = "store @ [?net0]"
  have copy: "?store1 ! length store = ?net0" by simp
  have keep1: "?store1 ! edges = ?net0" using ref by (simp add: nth_append)
  show ?thesis
  proof (cases "snap_network k ?net0 buildings tessellation_gdf ts te")
    case (Inl e)
    with run have "store' = ?store1" "result = Inl e"
      by (simp_all add: snap_street_network_edge_def Let_def)
    with keep1 show ?thesis by simp
  next
    case (Inr rows)
    with run have s: "store' = ?store1[length store := rows]" and res: "result = Inr (length store)"
      by (simp_all add: snap_street_network_edge_def Let_def)
    have keep: "store' ! edges = ?net0" using ref by (simp add: s nth_append)
    have new: "store' ! length store = rows" by (simp add: s)
    have "frame_inv ?net0 rows"
    proof -
      from Inr have "snap_loop k (sindex_build k (map edge_geom ?net0))
          (k_boundary k (k_unary_union k (map geom tessellation_gdf))) buildings
          (sindex_build k (map geom buildings)) ts te
          (map (\<lambda>r. (index r, edge_geom r)) ?net0) ?net0 = Inr rows"
        by (simp add: snap_network_def Let_def)
      then show ?thesis
        using dist
      proof (rule snap_loop_frame)
        show "\<forall>r \<in> set (map (\<lambda>r. (index r, edge_geom r)) ?net0).
                \<exists>j < length ?net0. fst r = index (?net0 ! j) \<and> snd r = edge_geom (?net0 ! j)"
          by (auto simp: in_set_conv_nth)
      qed (rule frame_inv_refl)
    qed
    with keep new res ref show ?thesis
      by (auto simp: frame_inv_def s)
  qed
qed

lemma row7:
  "snap_row kernel_s sindex_s (boundary0 limit1) ([] :: feature list) []
     10 10 7 (LineString [(0, 0), (10, 0)]) net_s = Inr net_s'"
proof -
  have c1: "connected kernel_s sindex_s net_s 7 (0, 0) = Inr True"
    by (simp add: connected_def sindex_s_query iloc_def drop_label_def
        kernel_s_fields net_s_def ebind_def)
  have c2: "connected kernel_s sindex_s net_s 7 (10, 0) = Inr False"
    by (simp add: connected_def sindex_s_query iloc_def drop_label_def
        kernel_s_fields net_s_def ebind_def)
  show ?thesis
    unfolding snap_row_def coords.simps ebind_def sum.case
    by (simp add: c1 c2 extend_end_def extend_line_s ebind_def)
qed

lemma row9:
  "snap_row kernel_s sindex_s (boundary0 limit1) ([] :: feature list) []
     10 10 9 zigzag net_s' = Inr net_s'"
  by (simp add: snap_row_def connected_def extend_end_def extend_line_def extend_line_edge_def
      extra_of_def getExtrapoledLine_def
      sindex_s_query iloc_def drop_label_def any_geometry_def
      kernel_s_fields net_s'_def zigzag_def building_s_def limit1_def ebind_def Let_def)

lemma snap_s: "snap_network kernel_s net_s ([] :: feature list) ([] :: feature list) 10 10 = Inr net_s'"
proof -
  have todo: "map (\<lambda>r. (index r, edge_geom r)) net_s = [(7, LineString [(0, 0), (10, 0)]), (9, zigzag)]"
    by (simp add: net_s_def)
  have geo: "k_boundary kernel_s (k_unary_union kernel_s (map geom ([] :: feature list))) = boundary0 limit1"
    by (simp add: kernel_s_fields)
  show ?thesis
    unfolding snap_network_def Let_def sindex_s_def[symmetric] bindex_empty todo geo
      snap_loop.simps row7 sum.case row9
    by simp
qed

theorem snap_street_network_edge_frame_witness:
  "snap_street_network_edge kernel_s [net_s] 0 ([] :: feature list) ([] :: feature list) 10 10
     = ([net_s, net_s'], Inr 1)
   \<and> [net_s, net_s'] ! 0 = net_s
   \<and> map index net_s' = map index net_s
   \<and> edge_geom (net_s' ! 0) = LineString ([] @ [(0, 0), (10, 0)] @ [(15, 0)])"
proof -
  have run: "snap_street_network_edge kernel_s [net_s] 0 ([] :: feature list) ([] :: feature list) 10 10
     = ([net_s, net_s'], Inr 1)"
    by (simp add: snap_street_network_edge_def Let_def snap_s)
  have ref: "0 < length [net_s]" by simp
  have dist: "distinct (map index ([net_s] ! 0))" by (simp add: net_s_def)
  from snap_street_network_edge_frame[OF ref dist run] run show ?thesis
    by (simp add: net_s_def net_s'_def)
qed
section \<open>Block assembly: connected components\<close>

text \<open>
  The component search is a breadth-first search: from a seed it collects exactly the
  rows reachable in the Queen graph. On a well-formed, symmetric graph the loop numbers
  every row, and two rows carry the same number exactly when they are connected.
\<close>

lemma adjacency_bound:
  assumes "well_formed nbs" and "(u, v) \<in> adjacency nbs"
  shows "u < length nbs \<and> v < length nbs"
  using assms by (auto simp: adjacency_def well_formed_def)

lemma reach_bound:
  assumes wf: "well_formed nbs" and u: "u < length nbs" and r: "(u, v) \<in> (adjacency nbs)\<^sup>*"
  shows "v < length nbs"
  using r u by (induction rule: rtrancl_induct) (auto dest: adjacency_bound[OF wf])

lemma expand_correct:
  assumes wf: "well_formed nbs"
    and "set to_join \<subseteq> R" and "set todo \<subseteq> R"
    and "R \<subseteq> {..<length nbs}" and "adjacency nbs `` R \<subseteq> R"
    and "\<forall>u \<in> set to_join. adjacency nbs `` {u} \<subseteq> set to_join \<union> set todo"
  shows "\<exists>res. expand nbs to_join todo = Inr res \<and> set to_join \<subseteq> set res \<and> set res \<subseteq> R
           \<and> (\<forall>u \<in> set res. adjacency nbs `` {u} \<subseteq> set res)"
  using assms(2-)
proof (induction nbs to_join todo rule: expand.induct)
  case (1 neighbors to_join)
  then show ?case by simp
next
  case (2 neighbors to_join n neighbours)
  show ?case
  proof (cases "n \<in> set to_join")
    case True
    have "\<forall>u \<in> set to_join. adjacency neighbors `` {u} \<subseteq> set to_join \<union> set neighbours"
      using "2.prems"(5) True by auto
    with "2.IH"(1)[OF True] "2.prems" True show ?thesis by simp
  next
    case False
    from "2.prems"(2,3) have n: "n < length neighbors" by auto
    have a: "set (to_join @ [n]) \<subseteq> R" using "2.prems"(1,2) by simp
    have nb: "set (neighbors ! n) = adjacency neighbors `` {n}"
      using n by (auto simp: adjacency_def)
    have b: "set (neighbours @ neighbors ! n) \<subseteq> R"
      using "2.prems"(2,4) nb by auto
    have c: "\<forall>u \<in> set (to_join @ [n]).
               adjacency neighbors `` {u} \<subseteq> set (to_join @ [n]) \<union> set (neighbours @ neighbors ! n)"
      using "2.prems"(5) nb by auto
    from "2.IH"(2)[OF False n a b "2.prems"(3,4) c] False n show ?thesis by auto
  qed
qed

lemma expand_component:
  assumes wf: "well_formed nbs" and idx: "idx < length nbs"
  shows "\<exists>res. expand nbs [idx] (nbs ! idx) = Inr res
           \<and> set res = (adjacency nbs)\<^sup>* `` {idx}"
proof -
  let ?E = "adjacency nbs"
  let ?R = "?E\<^sup>* `` {idx}"
  have 1: "set [idx] \<subseteq> ?R" by simp
  have nb: "set (nbs ! idx) = ?E `` {idx}" using idx by (auto simp: adjacency_def)
  have 2: "set (nbs ! idx) \<subseteq> ?R" unfolding nb by auto
  have 3: "?R \<subseteq> {..<length nbs}" using reach_bound[OF wf idx] by auto
  have 4: "?E `` ?R \<subseteq> ?R" by (auto intro: rtrancl_into_rtrancl)
  have 5: "\<forall>u \<in> set [idx]. ?E `` {u} \<subseteq> set [idx] \<union> set (nbs ! idx)" using nb by auto
  from expand_correct[OF wf 1 2 3 4 5] obtain res where
    res: "expand nbs [idx] (nbs ! idx) = Inr res" and sub: "set res \<subseteq> ?R"
    and has: "idx \<in> set res" and closed: "\<forall>u \<in> set res. ?E `` {u} \<subseteq> set res"
    by auto
  have "v \<in> set res" if "(idx, v) \<in> ?E\<^sup>*" for v
    using that
  proof (induction rule: rtrancl_induct)
    case base
    show ?case by (rule has)
  next
    case (step y z)
    with closed show ?case by auto
  qed
  with sub res show ?thesis by auto
qed


lemma foldl_assign:
  "foldl (\<lambda>p b. p(b \<mapsto> j)) p xs = (\<lambda>x. if x \<in> set xs then Some j else p x)"
  by (induction xs arbitrary: p) (auto simp: fun_eq_iff)

lemma patches_inv_step:
  assumes inv: "patches_inv nbs p j" and wf: "well_formed nbs" and sym: "sym (adjacency nbs)"
    and idx: "idx < length nbs" and free: "p idx = None"
    and comp: "set tj = (adjacency nbs)\<^sup>* `` {idx}"
  shows "patches_inv nbs (\<lambda>x. if x \<in> set tj then Some j else p x) (j + 1)"
proof -
  let ?E = "adjacency nbs"
  let ?p' = "\<lambda>x. if x \<in> set tj then Some j else p x"
  have symr: "sym (?E\<^sup>*)" using sym by (rule sym_rtrancl)
  have dom': "dom ?p' = dom p \<union> set tj" by (auto simp: dom_def)
  from inv have d: "dom p \<subseteq> {..<length nbs}"
    and cl: "\<forall>u \<in> dom p. ?E\<^sup>* `` {u} \<subseteq> dom p"
    and eq: "\<forall>u \<in> dom p. \<forall>v \<in> dom p. p u = p v \<longleftrightarrow> (u, v) \<in> ?E\<^sup>*"
    and bd: "\<forall>u i. p u = Some i \<longrightarrow> i < j"
    by (simp_all add: patches_inv_def)
  have disj: "v \<notin> dom p" if "v \<in> set tj" for v
  proof
    assume v: "v \<in> dom p"
    from that comp have "(idx, v) \<in> ?E\<^sup>*" by simp
    with symr have "(v, idx) \<in> ?E\<^sup>*" by (simp add: sym_def)
    with cl v have "idx \<in> dom p" by auto
    with free show False by auto
  qed
  have tjb: "set tj \<subseteq> {..<length nbs}"
    using comp reach_bound[OF wf idx] by auto
  have cl_tj: "?E\<^sup>* `` {u} \<subseteq> set tj" if "u \<in> set tj" for u
    using that comp by (auto intro: rtrancl_trans)
  have in_tj: "(u, v) \<in> ?E\<^sup>*" if "u \<in> set tj" "v \<in> set tj" for u v
  proof -
    from that comp have "(idx, u) \<in> ?E\<^sup>*" "(idx, v) \<in> ?E\<^sup>*" by simp_all
    with symr have ui: "(u, idx) \<in> ?E\<^sup>*" by (simp add: sym_def)
    from ui \<open>(idx, v) \<in> ?E\<^sup>*\<close> show ?thesis by (rule rtrancl_trans)
  qed
  show ?thesis
    unfolding patches_inv_def
  proof (intro conjI)
    show "dom ?p' \<subseteq> {..<length nbs}" unfolding dom' using d tjb by simp
  next
    show "\<forall>u \<in> dom ?p'. ?E\<^sup>* `` {u} \<subseteq> dom ?p'"
      unfolding dom' using cl cl_tj by blast
  next
    show "\<forall>u \<in> dom ?p'. \<forall>v \<in> dom ?p'. ?p' u = ?p' v \<longleftrightarrow> (u, v) \<in> ?E\<^sup>*"
      unfolding dom'
    proof (intro ballI)
      fix u v assume u: "u \<in> dom p \<union> set tj" and v: "v \<in> dom p \<union> set tj"
      consider (oo) "u \<in> dom p" "v \<in> dom p" "u \<notin> set tj" "v \<notin> set tj"
        | (nn) "u \<in> set tj" "v \<in> set tj"
        | (on) "u \<in> dom p" "u \<notin> set tj" "v \<in> set tj"
        | (no) "u \<in> set tj" "v \<in> dom p" "v \<notin> set tj"
        using u v disj by blast
      then show "?p' u = ?p' v \<longleftrightarrow> (u, v) \<in> ?E\<^sup>*"
      proof cases
        case oo
        with eq show ?thesis by simp
      next
        case nn
        with in_tj show ?thesis by simp
      next
        case on
        from on(1) obtain i where i: "p u = Some i" by auto
        with bd have "i < j" by blast
        moreover have "(u, v) \<notin> ?E\<^sup>*"
        proof
          assume "(u, v) \<in> ?E\<^sup>*"
          with cl on(1) have "v \<in> dom p" by auto
          with disj on(3) show False by blast
        qed
        ultimately show ?thesis using on i by simp
      next
        case no
        from no(2) obtain i where i: "p v = Some i" by auto
        with bd have "i < j" by blast
        moreover have "(u, v) \<notin> ?E\<^sup>*"
        proof
          assume "(u, v) \<in> ?E\<^sup>*"
          with cl_tj[OF no(1)] have "v \<in> set tj" by auto
          with no(3) show False by blast
        qed
        ultimately show ?thesis using no i by simp
      qed
    qed
  next
    show "\<forall>u i. ?p' u = Some i \<longrightarrow> i < j + 1"
      using bd by (auto split: if_splits simp: less_Suc_eq)
  qed
qed

lemma patches_loop_correct:
  assumes wf: "well_formed nbs" and sym: "sym (adjacency nbs)"
    and "patches_inv nbs p j" and "set rows \<subseteq> {..<length nbs}"
  shows "\<exists>p' j'. patches_loop nbs rows p j = Inr p' \<and> patches_inv nbs p' j'
           \<and> dom p \<union> set rows \<subseteq> dom p'"
  using assms(3,4)
proof (induction rows arbitrary: p j)
  case Nil
  then show ?case by auto
next
  case (Cons idx rows)
  from Cons.prems(2) have idx: "idx < length nbs" and rows: "set rows \<subseteq> {..<length nbs}" by auto
  show ?case
  proof (cases "p idx")
    case (Some i)
    from Cons.IH[OF Cons.prems(1) rows] obtain p' j' where
      "patches_loop nbs rows p j = Inr p'" "patches_inv nbs p' j'" "dom p \<union> set rows \<subseteq> dom p'"
      by blast
    with Some show ?thesis by auto
  next
    case None
    from expand_component[OF wf idx] obtain tj where
      tj: "expand nbs [idx] (nbs ! idx) = Inr tj" and comp: "set tj = (adjacency nbs)\<^sup>* `` {idx}"
      by blast
    let ?p1 = "\<lambda>x. if x \<in> set tj then Some j else p x"
    have inv1: "patches_inv nbs ?p1 (j + 1)"
      using Cons.prems(1) wf sym idx None comp by (rule patches_inv_step)
    from Cons.IH[OF inv1 rows] obtain p' j' where
      run: "patches_loop nbs rows ?p1 (j + 1) = Inr p'" and inv': "patches_inv nbs p' j'"
      and sub: "dom ?p1 \<union> set rows \<subseteq> dom p'"
      by blast
    have "idx \<in> set tj" using comp by simp
    then have a: "idx \<in> dom ?p1" by (simp add: dom_def)
    have b: "dom p \<subseteq> dom ?p1" by (auto simp: dom_def)
    from sub have c: "dom ?p1 \<subseteq> dom p'" and r: "set rows \<subseteq> dom p'" by blast+
    from a c have "idx \<in> dom p'" by (rule subsetD[rotated])
    moreover from b c have "dom p \<subseteq> dom p'" by (rule subset_trans)
    ultimately have cover: "dom p \<union> set (idx # rows) \<subseteq> dom p'" using r by simp
    have "patches_loop nbs (idx # rows) p j = Inr p'"
      using None idx tj run by (simp add: foldl_assign)
    with inv' cover show ?thesis by blast
  qed
qed

lemma block_patches_components:
  assumes wf: "well_formed nbs" and sym: "sym (adjacency nbs)"
  shows "\<exists>p. block_patches nbs (length nbs) = Inr p
          \<and> (\<forall>u < length nbs. p u \<noteq> None)
          \<and> (\<forall>u < length nbs. \<forall>v < length nbs.
                p u = p v \<longleftrightarrow> (u, v) \<in> (adjacency nbs)\<^sup>*)"
proof -
  have inv0: "patches_inv nbs Map.empty 1" by (simp add: patches_inv_def)
  have rows: "set [0..<length nbs] \<subseteq> {..<length nbs}" by auto
  from patches_loop_correct[OF wf sym inv0 rows] obtain p j where
    run: "patches_loop nbs [0..<length nbs] Map.empty 1 = Inr p" and inv: "patches_inv nbs p j"
    and sub: "set [0..<length nbs] \<subseteq> dom p"
    by auto
  from sub have all: "\<forall>u < length nbs. u \<in> dom p" by auto
  with inv have "\<forall>u < length nbs. \<forall>v < length nbs. p u = p v \<longleftrightarrow> (u, v) \<in> (adjacency nbs)\<^sup>*"
    by (simp add: patches_inv_def)
  with run all show ?thesis by (auto simp: block_patches_def)
qed

lemma reach_transport:
  assumes perm: "bij_betw \<pi> {..<n} {..<n}"
    and step: "\<forall>i < n. \<forall>j. (i, j) \<in> E' \<longleftrightarrow> j < n \<and> (\<pi> i, \<pi> j) \<in> E"
    and dom': "\<forall>i j. (i, j) \<in> E' \<longrightarrow> i < n"
    and dom: "\<forall>a b. (a, b) \<in> E \<longrightarrow> a < n"
    and i: "i < n" and j: "j < n"
  shows "(i, j) \<in> E'\<^sup>* \<longleftrightarrow> (\<pi> i, \<pi> j) \<in> E\<^sup>*"
proof
  assume "(i, j) \<in> E'\<^sup>*"
  then show "(\<pi> i, \<pi> j) \<in> E\<^sup>*"
  proof (induction rule: rtrancl_induct)
    case base
    show ?case by simp
  next
    case (step y z)
    from step(2) dom' have "y < n" by blast
    with step(2) \<open>\<forall>i < n. \<forall>j. (i, j) \<in> E' \<longleftrightarrow> j < n \<and> (\<pi> i, \<pi> j) \<in> E\<close>
    have "(\<pi> y, \<pi> z) \<in> E" by blast
    with step(3) show ?case by (rule rtrancl_into_rtrancl)
  qed
next
  assume r: "(\<pi> i, \<pi> j) \<in> E\<^sup>*"
  have inj: "inj_on \<pi> {..<n}" and surj: "\<pi> ` {..<n} = {..<n}"
    using perm by (simp_all add: bij_betw_def)
  have "\<forall>j < n. b = \<pi> j \<longrightarrow> (i, j) \<in> E'\<^sup>*" if "(\<pi> i, b) \<in> E\<^sup>*" for b
    using that
  proof (induction rule: rtrancl_induct)
    case base
    show ?case
    proof (intro allI impI)
      fix j assume "j < n" "\<pi> i = \<pi> j"
      with inj i have "i = j" by (auto simp: inj_on_def)
      then show "(i, j) \<in> E'\<^sup>*" by simp
    qed
  next
    case (step y z)
    show ?case
    proof (intro allI impI)
      fix j assume j: "j < n" and z: "z = \<pi> j"
      from step(2) dom have "y < n" by blast
      with surj obtain y' where y': "y' < n" "y = \<pi> y'" by (metis imageE lessThan_iff)
      with step(3) have iy: "(i, y') \<in> E'\<^sup>*" by blast
      from step(2) y' z have "(\<pi> y', \<pi> j) \<in> E" by simp
      with j y'(1) \<open>\<forall>i < n. \<forall>j. (i, j) \<in> E' \<longleftrightarrow> j < n \<and> (\<pi> i, \<pi> j) \<in> E\<close>
      have "(y', j) \<in> E'" by blast
      with iy show "(i, j) \<in> E'\<^sup>*" by (rule rtrancl_into_rtrancl)
    qed
  qed
  with r j show "(i, j) \<in> E'\<^sup>*" by blast
qed

text \<open>
  Claim C7. Let \<open>nbs\<close> be the Queen neighbour table of the fragments (well-formed and
  symmetric, as contiguity weights are) and \<open>nbs'\<close> the table of the same fragments in
  another order: position \<open>i\<close> of the new order holds the fragment of position \<open>\<pi> i\<close>
  of the old one. Both runs of the component loop number every fragment, and two
  fragments carry the same number in the new run exactly when they do in the old run:
  the partition into blocks is the same, only the numbers may differ.
\<close>

theorem block_patches_order_invariant:
  assumes wf: "well_formed nbs" and sym: "sym (adjacency nbs)"
    and perm: "bij_betw \<pi> {..<length nbs} {..<length nbs}"
    and len: "length nbs' = length nbs"
    and corr: "\<forall>i < length nbs. \<forall>j. j \<in> set (nbs' ! i) \<longleftrightarrow> j < length nbs \<and> \<pi> j \<in> set (nbs ! \<pi> i)"
  shows "\<exists>p p'. block_patches nbs (length nbs) = Inr p
           \<and> block_patches nbs' (length nbs') = Inr p'
           \<and> (\<forall>i < length nbs. p i \<noteq> None \<and> p' i \<noteq> None)
           \<and> (\<forall>i < length nbs. \<forall>j < length nbs. p' i = p' j \<longleftrightarrow> p (\<pi> i) = p (\<pi> j))"
proof -
  let ?n = "length nbs"
  let ?E = "adjacency nbs" and ?E' = "adjacency nbs'"
  have img: "\<pi> i < ?n" if "i < ?n" for i
    using perm that by (auto simp: bij_betw_def)
  have step: "\<forall>i < ?n. \<forall>j. (i, j) \<in> ?E' \<longleftrightarrow> j < ?n \<and> (\<pi> i, \<pi> j) \<in> ?E"
    using corr len img by (auto simp: adjacency_def)
  have wf': "well_formed nbs'"
    using corr len by (auto simp: well_formed_def)
  have sym': "sym ?E'"
  proof (rule symI)
    fix a b assume ab: "(a, b) \<in> ?E'"
    then have a: "a < ?n" using len by (simp add: adjacency_def)
    with ab step have b: "b < ?n" and "(\<pi> a, \<pi> b) \<in> ?E" by blast+
    with sym have "(\<pi> b, \<pi> a) \<in> ?E" by (simp add: sym_def)
    with a b step show "(b, a) \<in> ?E'" by blast
  qed
  from block_patches_components[OF wf sym] obtain p where
    p: "block_patches nbs ?n = Inr p" and pd: "\<forall>u < ?n. p u \<noteq> None"
    and pc: "\<forall>u < ?n. \<forall>v < ?n. p u = p v \<longleftrightarrow> (u, v) \<in> ?E\<^sup>*"
    by blast
  from block_patches_components[OF wf' sym'] len obtain p' where
    p': "block_patches nbs' (length nbs') = Inr p'" and pd': "\<forall>u < ?n. p' u \<noteq> None"
    and pc': "\<forall>u < ?n. \<forall>v < ?n. p' u = p' v \<longleftrightarrow> (u, v) \<in> ?E'\<^sup>*"
    by auto
  have d': "\<forall>i j. (i, j) \<in> ?E' \<longrightarrow> i < ?n" using len by (simp add: adjacency_def)
  have d: "\<forall>a b. (a, b) \<in> ?E \<longrightarrow> a < ?n" by (simp add: adjacency_def)
  have "p' i = p' j \<longleftrightarrow> p (\<pi> i) = p (\<pi> j)" if i: "i < ?n" and j: "j < ?n" for i j
  proof -
    have "p' i = p' j \<longleftrightarrow> (i, j) \<in> ?E'\<^sup>*" using pc' i j by blast
    also have "\<dots> \<longleftrightarrow> (\<pi> i, \<pi> j) \<in> ?E\<^sup>*"
      using perm step d' d i j by (rule reach_transport)
    also have "\<dots> \<longleftrightarrow> p (\<pi> i) = p (\<pi> j)" using pc img[OF i] img[OF j] by blast
    finally show ?thesis .
  qed
  with p p' pd pd' show ?thesis by blast
qed

lemma upt3: "[0..<3] = [0, 1, 2]"
  by (simp add: upt_rec)

lemma run3: "\<exists>p. block_patches nbs3 (length nbs3) = Inr p \<and> map p [0, 1, 2] = [Some 1, Some 1, Some 2]"
  by (simp add: block_patches_def nbs3_def upt3)

lemma run3': "\<exists>p. block_patches nbs3' (length nbs3') = Inr p \<and> map p [0, 1, 2] = [Some 1, Some 2, Some 2]"
  by (simp add: block_patches_def nbs3'_def upt3)

lemma less3: "i < (3::nat) \<longleftrightarrow> i = 0 \<or> i = 1 \<or> i = 2"
  by auto

lemma wf3: "well_formed nbs3"
  by (auto simp: well_formed_def nbs3_def less_Suc_eq)

lemma adj3: "adjacency nbs3 = {(0, 1), (1, 0)}"
  by (auto simp: adjacency_def nbs3_def less_Suc_eq)

lemma sym3: "sym (adjacency nbs3)"
  by (simp add: adj3 sym_def)

lemma perm3: "bij_betw swap02 {..<length nbs3} {..<length nbs3}"
proof -
  have "bij_betw swap02 {..<3} {..<3}"
    by (rule bij_betw_byWitness[where f' = swap02]) (auto simp: swap02_def)
  then show ?thesis by (simp add: nbs3_def numeral_3_eq_3)
qed

lemma corr3:
  "\<forall>i < length nbs3. \<forall>j. j \<in> set (nbs3' ! i) \<longleftrightarrow> j < length nbs3 \<and> swap02 j \<in> set (nbs3 ! swap02 i)"
  by (auto simp: nbs3_def nbs3'_def swap02_def less_Suc_eq)

theorem block_patches_order_invariant_witness:
  "\<exists>p p'. block_patches nbs3 (length nbs3) = Inr p
     \<and> block_patches nbs3' (length nbs3') = Inr p'
     \<and> map p [0, 1, 2] = [Some 1, Some 1, Some 2]
     \<and> map p' [0, 1, 2] = [Some 1, Some 2, Some 2]
     \<and> (p' 1 = p' 2) = (p (swap02 1) = p (swap02 2))
     \<and> (p' 0 = p' 1) = (p (swap02 0) = p (swap02 1))"
proof -
  have len: "length nbs3' = length nbs3" by (simp add: nbs3_def nbs3'_def)
  from block_patches_order_invariant[OF wf3 sym3 perm3 len corr3] obtain p p' where
    p: "block_patches nbs3 (length nbs3) = Inr p"
    and p': "block_patches nbs3' (length nbs3') = Inr p'"
    and eq: "\<forall>i < length nbs3. \<forall>j < length nbs3. p' i = p' j \<longleftrightarrow> p (swap02 i) = p (swap02 j)"
    by blast
  from run3 p have m: "map p [0, 1, 2] = [Some 1, Some 1, Some 2]" by auto
  from run3' p' have m': "map p' [0, 1, 2] = [Some 1, Some 2, Some 2]" by auto
  have "(p' 1 = p' 2) = (p (swap02 1) = p (swap02 2))"
    and "(p' 0 = p' 1) = (p (swap02 0) = p (swap02 1))"
    using eq by (simp_all add: nbs3_def)
  with p p' m m' show ?thesis
    by (intro exI[of _ p] exI[of _ p']) simp
qed

end
